theory Spec2Isabelle
  imports Complex_Main "HOL-Library.AList"
begin

section \<open>FrameByFrame: a scroll-driven image sequence on a canvas\<close>

text \<open>
  A shallow embedding of \<^verbatim>\<open>src/frameByFrame.ts\<close>. JavaScript numbers are
  read as exact reals (type \<open>real\<close>): rounding of IEEE doubles, \<open>NaN\<close> and the
  infinities are not modelled, and a division by zero (which HOL evaluates to \<open>0\<close>)
  is excluded by a hypothesis wherever it could matter. Frame indices and counts
  are integers, as \<open>Math.floor\<close> and \<open>Array.length\<close> produce them.
\<close>

subsection \<open>Frame index (lines 292-303)\<close>

text \<open>
  \<^verbatim>\<open>top = scrollTop + windowHeight\<close> and the first assignment to
  \<^verbatim>\<open>requestedImageIndex\<close>:
  \<^verbatim>\<open>Math.min(imagesPath.length - 1, Math.floor(top / pxPerImg - windowHeight / pxPerImg))\<close>.
\<close>

definition requestedIndex_min :: "real \<Rightarrow> real \<Rightarrow> real \<Rightarrow> nat \<Rightarrow> int" where
  "requestedIndex_min scrollTop windowHeight pxPerImg numberOfImages =
     (let top = scrollTop + windowHeight
      in min (int numberOfImages - 1) \<lfloor>top / pxPerImg - windowHeight / pxPerImg\<rfloor>)"

text \<open>
  The whole of \<^verbatim>\<open>getRequestedImageIndex\<close>, as a function of what it reads: the
  \<^verbatim>\<open>Math.min\<close> above, then the \<^verbatim>\<open>if\<close> of lines 298-300. There is no
  lower clamp in the source.
\<close>

definition requestedIndex :: "real \<Rightarrow> real \<Rightarrow> real \<Rightarrow> nat \<Rightarrow> int" where
  "requestedIndex scrollTop windowHeight pxPerImg numberOfImages =
     (let requestedImageIndex = requestedIndex_min scrollTop windowHeight pxPerImg numberOfImages
      in if requestedImageIndex \<ge> int numberOfImages - 1 then int numberOfImages - 1
         else requestedImageIndex)"

subsection \<open>Cover fit (lines 201-240)\<close>

text \<open>\<^verbatim>\<open>Math.round\<close> rounds to the nearest integer, halves upwards.\<close>

definition Math_round :: "real \<Rightarrow> int" where
  "Math_round x = \<lfloor>x + 1 / 2\<rfloor>"

text \<open>
  The source rectangle \<^verbatim>\<open>(sourceX, sourceY, sourceWidth, sourceHeight)\<close> that
  \<^verbatim>\<open>drawOnCanvas\<close> passes to \<^verbatim>\<open>drawImage\<close>; the destination is always
  \<^verbatim>\<open>(0, 0, canvasWidth, canvasHeight)\<close>. Line 216 computes
  \<^verbatim>\<open>resizedImageHeight\<close> from \<^verbatim>\<open>imageWidth\<close>, and so does this definition.
\<close>

definition sourceRect :: "real \<Rightarrow> real \<Rightarrow> real \<Rightarrow> real \<Rightarrow> real \<times> real \<times> real \<times> real" where
  "sourceRect imageWidth imageHeight canvasWidth canvasHeight =
     (let offsetX = 1 / 2;
          offsetY = 1 / 2;
          lowestRatio = min (canvasWidth / imageWidth) (canvasHeight / imageHeight);
          resizedImageWidth = imageWidth * lowestRatio;
          resizedImageHeight = imageWidth * lowestRatio;
          adjustedRatio = 1;
          adjustedRatio = (if real_of_int (Math_round resizedImageWidth) < canvasWidth
                           then canvasWidth / resizedImageWidth else adjustedRatio);
          adjustedRatio = (if real_of_int (Math_round resizedImageHeight) < canvasHeight
                           then canvasHeight / resizedImageHeight else adjustedRatio);
          resizedImageWidth = resizedImageWidth * adjustedRatio;
          resizedImageHeight = resizedImageHeight * adjustedRatio;
          sourceWidth = imageWidth / (resizedImageWidth / canvasWidth);
          sourceHeight = imageHeight / (resizedImageHeight / canvasHeight);
          sourceX = (imageWidth - sourceWidth) * offsetX;
          sourceY = (imageHeight - sourceHeight) * offsetY;
          sourceX = (if sourceX < 0 then 0 else sourceX);
          sourceY = (if sourceY < 0 then 0 else sourceY);
          sourceWidth = (if sourceWidth > imageWidth then imageWidth else sourceWidth);
          sourceHeight = (if sourceHeight > imageHeight then imageHeight else sourceHeight)
      in (sourceX, sourceY, sourceWidth, sourceHeight))"

section \<open>The FrameByFrame object and its host\<close>

text \<open>
  The class runs on the single-threaded event loop of the browser. The model is a
  state (the fields of the object, the closure variables, and what the host holds
  for it) and a function \<open>step\<close> that runs one task of the loop to its end: the
  listener of a host event, then the promise reactions that the listener has made
  ready, in the order in which JavaScript would run them. A promise is not a
  value of the state but the continuation that waits for it: each \<^verbatim>\<open>then\<close> and
  each \<^verbatim>\<open>await\<close> of the source is a function of the model, named after the place
  it continues. Calls of \<^verbatim>\<open>debugLog\<close> are left out.
\<close>

subsection \<open>Options and image paths (lines 14-31, 45-65, 177-184)\<close>

text \<open>
  The record holds the options after \<^verbatim>\<open>Object.assign\<close> has merged the caller's
  over the defaults. The three callbacks are not fields: a call of one of them is
  an entry of the output trace below. The two delays say when the host fires a
  timer, which the model leaves to the host.
\<close>

record FrameByFrameOption =
  imageHighResDir :: string
  imageLowResDir :: string
  imagePrefix :: string
  imageCountFirst :: int
  imageCountLast :: int
  imageExtension :: string
  pxPerImg :: real
  highResLoadDelay :: real
  preLoadingPercentage :: real
  forwardLoadingThreshold :: real
  intervalTimeout :: real
  intervalLoadPercentage :: real
  debug :: bool

definition defaultOptions :: FrameByFrameOption where
  "defaultOptions =
     \<lparr> imageHighResDir = [], imageLowResDir = [], imagePrefix = [],
       imageCountFirst = 0, imageCountLast = 9, imageExtension = ''jpg'',
       pxPerImg = 27, highResLoadDelay = 250, preLoadingPercentage = 1 / 4,
       forwardLoadingThreshold = 1 / 4, intervalTimeout = 500,
       intervalLoadPercentage = 1 / 50, debug = False \<rparr>"

text \<open>The decimal numeral that string concatenation makes of an integer.\<close>

fun digits :: "nat \<Rightarrow> string" where
  "digits n = (if n < 10 then [''0123456789'' ! n]
               else digits (n div 10) @ [''0123456789'' ! (n mod 10)])"

definition string_of_int :: "int \<Rightarrow> string" where
  "string_of_int i = (if i < 0 then CHR ''-'' # digits (nat (- i)) else digits (nat i))"

definition getImagesPath :: "FrameByFrameOption \<Rightarrow> string list" where
  "getImagesPath opts =
     map (\<lambda>i. imagePrefix opts @ string_of_int i) [imageCountFirst opts .. imageCountLast opts]"

subsection \<open>Promises, image elements and the state\<close>

text \<open>
  An image element is identified by the order of its creation. The promise that
  \<^verbatim>\<open>loadImage\<close> returns is already resolved with a cached element, already
  rejected, or pending on the \<^verbatim>\<open>load\<close> and \<^verbatim>\<open>error\<close> events of the
  element it has just created.
\<close>

type_synonym img = nat

datatype rejection =
    AlreadyLoaded
  | ErrorEvent img
  | UnableToLoad int
  | ReduceOfEmptyArray

datatype promise = Resolved img | Rejected rejection | Pending img

text \<open>
  What the caller of \<^verbatim>\<open>loadImage\<close> does with the promise, one constructor for
  each of the four call sites: line 285 (a member of the preloader's
  \<^verbatim>\<open>Promise.all\<close>), line 190 (\<^verbatim>\<open>drawOnScreenImage\<close>, with the index and with
  who called it: the constructor at line 108, the resize listener, the scroll
  listener or the high-resolution timer), line 312 (a member of the
  \<^verbatim>\<open>Promise.all\<close> of a forward chain) and line 149 (awaited by the interval
  callback, with its \<^verbatim>\<open>numberOfImagesToLoad\<close>).
\<close>

datatype caller = FromConstructor | FromResize | FromScroll | FromHDTimer

datatype waiter = ByPreloader | ByDraw caller int | ByForward nat | ByInterval int

record element =
  el_index :: int
  el_highRes :: bool
  el_src :: string
  el_then :: waiter

text \<open>
  A \<^verbatim>\<open>Promise.all\<close>: the number of members that are still pending, its state,
  and the calls of \<^verbatim>\<open>forwardLoad\<close> (by their index) suspended on it at line 307.
\<close>

datatype all_state = AllWaiting | AllFulfilled | AllRejected rejection

record all_promise =
  remaining :: nat
  all_status :: all_state
  awaiting :: "int list"

datatype emitted =
    OnComplete
  | OnResizeCompleted
  | OnFrameUpdated int
  | DrawImage img "real \<times> real \<times> real \<times> real" "real \<times> real"
  | Unhandled rejection

text \<open>
  The fields of the object (lines 67-75), the two variables that closures share
  (\<^verbatim>\<open>HDTimerId\<close> of line 112, \<^verbatim>\<open>latestIntervalLoadedImage\<close> of line 135), what
  the host holds (scroll position, window size, listeners, the image elements in
  flight, the intrinsic sizes of the loaded ones, the promises) and three
  histories: every assignment to an \<^verbatim>\<open>img.src\<close> (a transport fetch), every call
  of \<^verbatim>\<open>loadImage\<close> with its arguments, and the outputs. The two caches are
  association lists, since line 135 enumerates the keys of one.
\<close>

record state =
  options :: FrameByFrameOption
  canvasWidth :: real
  canvasHeight :: real
  storyEl :: bool
  storyHeight :: "real option"
  loadedImages :: "(int \<times> img) list"
  loadedHighResImages :: "(int \<times> img) list"
  imagesPath :: "string list"
  windowHeight :: real
  forwardLoading :: nat
  isFowardLoading :: bool
  HDTimerId :: bool
  intervalSet :: bool
  latestIntervalLoadedImage :: int
  scrollTop :: real
  innerWidth :: real
  innerHeight :: real
  listeners :: bool
  elements :: "img \<rightharpoonup> element"
  sizes :: "img \<Rightarrow> real \<times> real"
  created :: nat
  preloaded :: all_promise
  allPromises :: "nat \<Rightarrow> all_promise"
  promiseCount :: nat
  resumed :: "(int \<times> nat) list"
  settledNow :: "nat list"
  transport :: "(img \<times> string) list"
  loadImageCalls :: "(int \<times> bool \<times> bool) list"
  outputs :: "emitted list"

definition emit :: "emitted \<Rightarrow> state \<Rightarrow> state" where
  "emit x st = st\<lparr>outputs := outputs st @ [x]\<rparr>"

definition numberOfImages :: "state \<Rightarrow> int" where
  "numberOfImages st = int (length (imagesPath st))"

definition getRequestedImageIndex :: "state \<Rightarrow> int" where
  "getRequestedImageIndex st =
     requestedIndex (scrollTop st) (windowHeight st) (pxPerImg (options st))
       (length (imagesPath st))"

subsection \<open>loadImage (lines 244-278)\<close>

text \<open>
  \<^verbatim>\<open>createImageBase\<close>: the source of the image \<^verbatim>\<open>index\<close>. Outside the array
  \<^verbatim>\<open>imagesPath[index]\<close> is \<^verbatim>\<open>undefined\<close>, which the template string prints.
\<close>

definition imageSrc :: "int \<Rightarrow> bool \<Rightarrow> state \<Rightarrow> string" where
  "imageSrc index highRes st =
     (let imgSrcPath = (if highRes then imageHighResDir (options st) else imageLowResDir (options st));
          path = (if 0 \<le> index \<and> index < numberOfImages st then imagesPath st ! nat index
                  else ''undefined'')
      in imgSrcPath @ path @ ''.'' @ imageExtension (options st))"

text \<open>
  \<^verbatim>\<open>loadImage\<close>, with the continuation \<open>k\<close> that its caller attaches to the returned
  promise. A cached image decides the promise at once; otherwise a new element is
  created, \<open>k\<close> waits for its events, and the assignment to \<^verbatim>\<open>src\<close> starts a
  transport fetch. Nothing records that a fetch of the same image is in flight.
\<close>

definition loadImage :: "int \<Rightarrow> bool \<Rightarrow> bool \<Rightarrow> waiter \<Rightarrow> state \<Rightarrow> promise \<times> state" where
  "loadImage index highRes rejectAlreadyLoaded k st =
     (let st1 = st\<lparr>loadImageCalls := loadImageCalls st @ [(index, highRes, rejectAlreadyLoaded)]\<rparr>;
          loaded = (if highRes then loadedHighResImages st1 else loadedImages st1)
      in case map_of loaded index of
           Some loadedImage \<Rightarrow>
             (if rejectAlreadyLoaded then Rejected AlreadyLoaded else Resolved loadedImage, st1)
         | None \<Rightarrow>
             (let img = created st1;
                  src = imageSrc index highRes st1
              in (Pending img,
                  st1\<lparr>created := Suc img,
                      elements := (elements st1)(img \<mapsto>
                        \<lparr>el_index = index, el_highRes = highRes, el_src = src, el_then = k\<rparr>),
                      transport := transport st1 @ [(img, src)]\<rparr>)))"

text \<open>
  The loops of lines 284-286 and 311-313: \<^verbatim>\<open>promises.push(this.loadImage(i))\<close>
  for \<open>i\<close> from a start while \<open>i < ub\<close>, with a real bound.
\<close>

function loadImages :: "int \<Rightarrow> real \<Rightarrow> waiter \<Rightarrow> promise list \<Rightarrow> state \<Rightarrow> promise list \<times> state" where
  "loadImages i ub k promises st =
     (if real_of_int i < ub
      then (case loadImage i False False k st of
              (p, st1) \<Rightarrow> loadImages (i + 1) ub k (promises @ [p]) st1)
      else (promises, st))"
  by pat_completeness auto
termination
  by (relation "measure (\<lambda>(i, ub, k, promises, st). nat (\<lceil>ub\<rceil> - i))")
     (auto simp: less_ceiling_iff)

declare loadImages.simps [simp del]

text \<open>
  \<^verbatim>\<open>Promise.all(promises)\<close> once the members that are already settled have been
  taken into account: rejected with the first rejected member, fulfilled when no
  member is pending, waiting for the pending ones otherwise.
\<close>

fun firstRejected :: "promise list \<Rightarrow> rejection option" where
  "firstRejected [] = None"
| "firstRejected (Rejected e # ps) = Some e"
| "firstRejected (p # ps) = firstRejected ps"

fun isPending :: "promise \<Rightarrow> bool" where
  "isPending (Pending img) = True"
| "isPending p = False"

definition Promise_all :: "promise list \<Rightarrow> all_promise" where
  "Promise_all promises =
     \<lparr> remaining = length (filter isPending promises),
       all_status = (case firstRejected promises of
                       Some e \<Rightarrow> AllRejected e
                     | None \<Rightarrow> if filter isPending promises = [] then AllFulfilled else AllWaiting),
       awaiting = [] \<rparr>"

text \<open>A member of a waiting \<^verbatim>\<open>Promise.all\<close> settles; a settled one ignores it.\<close>

definition memberSettled :: "rejection + img \<Rightarrow> all_promise \<Rightarrow> all_promise" where
  "memberSettled outcome p =
     (if all_status p \<noteq> AllWaiting then p
      else case outcome of
             Inl e \<Rightarrow> p\<lparr>all_status := AllRejected e\<rparr>
           | Inr img \<Rightarrow> if remaining p \<le> 1 then p\<lparr>remaining := 0, all_status := AllFulfilled\<rparr>
                        else p\<lparr>remaining := remaining p - 1\<rparr>)"

subsection \<open>Forward loading (lines 306-323)\<close>

definition getForwardLoadingUpperBound :: "int \<Rightarrow> state \<Rightarrow> real" where
  "getForwardLoadingUpperBound requestedImageIndex st =
     min (real_of_int requestedImageIndex
            + real_of_int (numberOfImages st) * forwardLoadingThreshold (options st))
         (real_of_int (numberOfImages st))"

text \<open>
  \<^verbatim>\<open>forwardLoad\<close> up to \<^verbatim>\<open>await this.forwardLoading\<close> (line 307). The call is
  suspended on the promise that the field holds at this moment: while that
  promise is waiting the call joins those it will wake, and when it is settled
  already the rest of the call is queued as a microtask.
\<close>

definition forwardLoad :: "int \<Rightarrow> state \<Rightarrow> state" where
  "forwardLoad requestedImageIndex st =
     (let c = forwardLoading st;
          p = allPromises st c
      in if all_status p = AllWaiting
         then st\<lparr>allPromises := (allPromises st)(c := p\<lparr>awaiting := awaiting p @ [requestedImageIndex]\<rparr>)\<rparr>
         else st\<lparr>resumed := resumed st @ [(requestedImageIndex, c)]\<rparr>)"

text \<open>
  \<^verbatim>\<open>forwardLoad\<close> after the \<^verbatim>\<open>await\<close> (lines 309-317): the loop, the new
  \<^verbatim>\<open>Promise.all\<close> stored in \<^verbatim>\<open>forwardLoading\<close>, the flag set. The callback of
  line 317 is attached to the new promise; when no member is pending the promise
  settles within the same task, after the microtasks that are queued already.
\<close>

definition forwardLoad_awaited :: "int \<Rightarrow> state \<Rightarrow> state" where
  "forwardLoad_awaited requestedImageIndex st =
     (let c = promiseCount st;
          ub = getForwardLoadingUpperBound requestedImageIndex st
      in case loadImages (requestedImageIndex + 1) ub (ByForward c) [] (st\<lparr>promiseCount := Suc c\<rparr>) of
           (promises, st1) \<Rightarrow>
             (let st2 = st1\<lparr>allPromises := (allPromises st1)(c := Promise_all promises),
                            forwardLoading := c,
                            isFowardLoading := True\<rparr>
              in if all_status (Promise_all promises) = AllWaiting then st2
                 else st2\<lparr>settledNow := settledNow st2 @ [c]\<rparr>))"

text \<open>
  The reactions to a forward chain that has settled, in the order of their
  registration: the callback of line 317, which runs on fulfilment only, then the
  calls of \<^verbatim>\<open>forwardLoad\<close> suspended on it, whose continuations are queued.
  A rejected chain leaves the flag as it is; the promise derived by
  \<^verbatim>\<open>then\<close> is rejected and nothing handles it.
\<close>

definition forwardLoading_settled :: "nat \<Rightarrow> state \<Rightarrow> state" where
  "forwardLoading_settled c st =
     (let p = allPromises st c;
          st1 = st\<lparr>allPromises := (allPromises st)(c := p\<lparr>awaiting := []\<rparr>),
                   resumed := resumed st @ map (\<lambda>i. (i, c)) (awaiting p)\<rparr>
      in case all_status p of
           AllFulfilled \<Rightarrow> st1\<lparr>isFowardLoading := False\<rparr>
         | AllRejected e \<Rightarrow> emit (Unhandled e) st1
         | AllWaiting \<Rightarrow> st)"

text \<open>
  A suspended \<^verbatim>\<open>forwardLoad\<close> resumes: the \<^verbatim>\<open>await\<close> of a rejected promise
  throws, so the call ends there with a rejection that nothing handles.
\<close>

definition forwardLoad_resume :: "int \<times> nat \<Rightarrow> state \<Rightarrow> state" where
  "forwardLoad_resume r st =
     (case all_status (allPromises st (snd r)) of
        AllFulfilled \<Rightarrow> forwardLoad_awaited (fst r) st
      | AllRejected e \<Rightarrow> emit (Unhandled e) st
      | AllWaiting \<Rightarrow> st)"

definition forwardLoading_member :: "nat \<Rightarrow> rejection + img \<Rightarrow> state \<Rightarrow> state" where
  "forwardLoading_member c outcome st =
     (let p = allPromises st c;
          st1 = st\<lparr>allPromises := (allPromises st)(c := memberSettled outcome p)\<rparr>
      in if all_status p = AllWaiting then forwardLoading_settled c st1 else st1)"

subsection \<open>Drawing the image on screen (lines 186-240)\<close>

text \<open>
  \<^verbatim>\<open>drawOnCanvas\<close>: the call of \<^verbatim>\<open>drawImage\<close> with the source rectangle and the
  canvas size. An image that reaches it has fired \<^verbatim>\<open>load\<close>, so its size is known.
\<close>

definition drawOnCanvas :: "img \<Rightarrow> state \<Rightarrow> state" where
  "drawOnCanvas img st =
     (case sizes st img of
        (imageWidth, imageHeight) \<Rightarrow>
          emit (DrawImage img (sourceRect imageWidth imageHeight (canvasWidth st) (canvasHeight st))
                  (canvasWidth st, canvasHeight st)) st)"

text \<open>The callback of lines 191-195.\<close>

definition drawn :: "int \<Rightarrow> img \<Rightarrow> state \<Rightarrow> state" where
  "drawn requestedImageIndex img st =
     emit (OnFrameUpdated requestedImageIndex) (forwardLoad requestedImageIndex (drawOnCanvas img st))"

subsection \<open>The interval (lines 133-156)\<close>

text \<open>
  \<^verbatim>\<open>Array.prototype.reduce\<close> without an initial value; on an empty array it
  throws a \<^verbatim>\<open>TypeError\<close>.
\<close>

fun reduce :: "('a \<Rightarrow> 'a \<Rightarrow> 'a) \<Rightarrow> 'a list \<Rightarrow> rejection + 'a" where
  "reduce f [] = Inl ReduceOfEmptyArray"
| "reduce f (x # xs) = Inr (foldl f x xs)"

text \<open>
  \<^verbatim>\<open>setIntervalLoad\<close>: the highest key of \<^verbatim>\<open>loadedImages\<close>, then the interval
  is set. The keys are compared as numbers, so their order in the list does not
  change the result.
\<close>

definition setIntervalLoad :: "state \<Rightarrow> rejection + state" where
  "setIntervalLoad st =
     (case reduce (\<lambda>a b. if a > b then a else b) (map fst (loadedImages st)) of
        Inl e \<Rightarrow> Inl e
      | Inr k \<Rightarrow> Inr (st\<lparr>latestIntervalLoadedImage := k, intervalSet := True\<rparr>))"

text \<open>
  The \<^verbatim>\<open>while\<close> loop of lines 147-153, entered with the current
  \<^verbatim>\<open>numberOfImagesToLoad\<close>. Line 151 is not an expression of the language as it
  is written (\<^verbatim>\<open>() => throw (...)\<close>); it is read as a rejection handler whose
  body throws \<^verbatim>\<open>'Unable to load ' + latestIntervalLoadedImage\<close>. The loop
  stops at the \<^verbatim>\<open>await\<close> of a pending promise, and ends with the thrown value,
  which nothing catches, when the promise is rejected.
\<close>

function interval_while :: "int \<Rightarrow> state \<Rightarrow> state" where
  "interval_while numberOfImagesToLoad st =
     (if numberOfImagesToLoad > 0 \<and> latestIntervalLoadedImage st < numberOfImages st - 1
      then (let st1 = st\<lparr>latestIntervalLoadedImage := latestIntervalLoadedImage st + 1\<rparr>
            in case loadImage (latestIntervalLoadedImage st1) False True
                      (ByInterval numberOfImagesToLoad) st1 of
                 (Pending img, st2) \<Rightarrow> st2
               | (Resolved img, st2) \<Rightarrow> interval_while (numberOfImagesToLoad - 1) st2
               | (Rejected e, st2) \<Rightarrow>
                   emit (Unhandled (UnableToLoad (latestIntervalLoadedImage st2))) st2)
      else st)"
  by pat_completeness auto
termination
  by (relation "measure (\<lambda>(numberOfImagesToLoad, st). nat numberOfImagesToLoad)") auto

declare interval_while.simps [simp del]

text \<open>The awaited promise of line 149 settles: the handlers of lines 150 and 151.\<close>

definition interval_settled :: "int \<Rightarrow> rejection + img \<Rightarrow> state \<Rightarrow> state" where
  "interval_settled numberOfImagesToLoad outcome st =
     (case outcome of
        Inr img \<Rightarrow> interval_while (numberOfImagesToLoad - 1) st
      | Inl e \<Rightarrow> emit (Unhandled (UnableToLoad (latestIntervalLoadedImage st))) st)"

text \<open>The callback of the interval (lines 137-155).\<close>

definition interval_callback :: "state \<Rightarrow> state" where
  "interval_callback st =
     (if latestIntervalLoadedImage st = numberOfImages st - 1
      then st\<lparr>intervalSet := False\<rparr>
      else if \<not> isFowardLoading st
      then interval_while
             \<lfloor>real_of_int (numberOfImages st) * intervalLoadPercentage (options st)\<rfloor> st
      else st)"

subsection \<open>The constructor and its continuations (lines 94-130, 159-167)\<close>

text \<open>
  The callback of lines 109-127, which follows the first draw: the listeners are
  added, the interval is set and \<^verbatim>\<open>onComplete\<close> is called. When
  \<^verbatim>\<open>setIntervalLoad\<close> throws, the callback ends before \<^verbatim>\<open>onComplete\<close>.
\<close>

definition theaterReady :: "state \<Rightarrow> state" where
  "theaterReady st =
     (let st1 = st\<lparr>listeners := True\<rparr>
      in case setIntervalLoad st1 of
           Inl e \<Rightarrow> emit (Unhandled e) st1
         | Inr st2 \<Rightarrow> emit OnComplete st2)"

fun caller_then :: "caller \<Rightarrow> state \<Rightarrow> state" where
  "caller_then FromConstructor st = theaterReady st"
| "caller_then FromResize st = emit OnResizeCompleted st"
| "caller_then FromScroll st = st"
| "caller_then FromHDTimer st = st"

text \<open>
  The promise \<^verbatim>\<open>loadImageOnScreenPromsise\<close> settles. Fulfilled, the callback
  of lines 191-195 runs, then the one its caller attached. Rejected, neither
  runs, and each promise derived by \<^verbatim>\<open>then\<close> is a rejection that nothing handles
  (the scroll listener derives none of its own).
\<close>

definition displayed :: "caller \<Rightarrow> int \<Rightarrow> rejection + img \<Rightarrow> state \<Rightarrow> state" where
  "displayed who requestedImageIndex outcome st =
     (case outcome of
        Inr img \<Rightarrow> caller_then who (drawn requestedImageIndex img st)
      | Inl e \<Rightarrow> if who = FromScroll then emit (Unhandled e) st
                 else emit (Unhandled e) (emit (Unhandled e) st))"

definition drawOnScreenImage :: "bool \<Rightarrow> caller \<Rightarrow> state \<Rightarrow> state" where
  "drawOnScreenImage highRes who st =
     (let requestedImageIndex = getRequestedImageIndex st
      in case loadImage requestedImageIndex highRes False (ByDraw who requestedImageIndex) st of
           (Pending img, st1) \<Rightarrow> st1
         | (Resolved img, st1) \<Rightarrow> displayed who requestedImageIndex (Inr img) st1
         | (Rejected e, st1) \<Rightarrow> displayed who requestedImageIndex (Inl e) st1)"

definition setTheaterSize :: "bool \<Rightarrow> caller \<Rightarrow> state \<Rightarrow> state" where
  "setTheaterSize highRes who st =
     drawOnScreenImage highRes who
       (st\<lparr>canvasWidth := innerWidth st,
           canvasHeight := innerHeight st,
           storyHeight := (if storyEl st
                           then Some (real_of_int (numberOfImages st) * pxPerImg (options st)
                                        + windowHeight st)
                           else storyHeight st)\<rparr>)"

text \<open>
  \<^verbatim>\<open>preloader\<close> (lines 281-289), and the reaction of line 104 to its promise:
  the callback runs when every member is fulfilled; a rejected member rejects the
  promise, the callback never runs, and nothing handles the rejection.
\<close>

definition preloader :: "state \<Rightarrow> state" where
  "preloader st =
     (case loadImages 0 (real_of_int (numberOfImages st) * preLoadingPercentage (options st))
             ByPreloader [] st of
        (promises, st1) \<Rightarrow> st1\<lparr>preloaded := Promise_all promises\<rparr>)"

definition preloaded_settled :: "state \<Rightarrow> state" where
  "preloaded_settled st =
     (case all_status (preloaded st) of
        AllFulfilled \<Rightarrow> setTheaterSize True FromConstructor st
      | AllRejected e \<Rightarrow> emit (Unhandled e) st
      | AllWaiting \<Rightarrow> st)"

definition preloaded_member :: "rejection + img \<Rightarrow> state \<Rightarrow> state" where
  "preloaded_member outcome st =
     (let p = preloaded st;
          st1 = st\<lparr>preloaded := memberSettled outcome p\<rparr>
      in if all_status p = AllWaiting then preloaded_settled st1 else st1)"

subsection \<open>The event loop\<close>

text \<open>
  The microtasks that follow the synchronous part of a task: first the suspended
  calls of \<^verbatim>\<open>forwardLoad\<close> that were queued, in their order, then the callback
  of line 317 for each chain they created with no pending member. Such a chain
  has no call suspended on it, since every call of \<^verbatim>\<open>forwardLoad\<close> of the task
  was made before the chain existed; theorem \<open>no_microtask_left\<close> below shows that
  this one pass empties both queues.
\<close>

definition microtasks :: "state \<Rightarrow> state" where
  "microtasks st =
     (let st1 = fold forwardLoad_resume (resumed st) (st\<lparr>resumed := []\<rparr>)
      in fold forwardLoading_settled (settledNow st1) (st1\<lparr>settledNow := []\<rparr>))"

text \<open>
  What the host does: an image element fires \<^verbatim>\<open>load\<close> (with the intrinsic size
  of the image) or \<^verbatim>\<open>error\<close>, the page is scrolled to an offset, the window is
  resized, the timer of line 116 or the interval of line 137 fires.
\<close>

datatype event =
    ImgLoad img real real
  | ImgError img
  | Scroll real
  | Resize real real
  | HDTimeout
  | IntervalTick

fun react :: "waiter \<Rightarrow> rejection + img \<Rightarrow> state \<Rightarrow> state" where
  "react ByPreloader outcome st = preloaded_member outcome st"
| "react (ByDraw who requestedImageIndex) outcome st = displayed who requestedImageIndex outcome st"
| "react (ByForward c) outcome st = forwardLoading_member c outcome st"
| "react (ByInterval numberOfImagesToLoad) outcome st = interval_settled numberOfImagesToLoad outcome st"

text \<open>
  The listeners. An element fires one of its two events once, while its fetch is
  in flight; the \<^verbatim>\<open>load\<close> listener of lines 254-257 writes the cache of the
  element's tier before it resolves the promise.
\<close>

fun handle :: "event \<Rightarrow> state \<Rightarrow> state" where
  "handle (ImgLoad img w h) st =
     (case elements st img of
        None \<Rightarrow> st
      | Some el \<Rightarrow>
          (let st1 = st\<lparr>elements := (elements st)(img := None), sizes := (sizes st)(img := (w, h))\<rparr>;
               st2 = (if el_highRes el
                      then st1\<lparr>loadedHighResImages :=
                                 AList.update (el_index el) img (loadedHighResImages st1)\<rparr>
                      else st1\<lparr>loadedImages := AList.update (el_index el) img (loadedImages st1)\<rparr>)
           in react (el_then el) (Inr img) st2))"
| "handle (ImgError img) st =
     (case elements st img of
        None \<Rightarrow> st
      | Some el \<Rightarrow> react (el_then el) (Inl (ErrorEvent img)) (st\<lparr>elements := (elements st)(img := None)\<rparr>))"
| "handle (Scroll y) st =
     (let st1 = st\<lparr>scrollTop := y\<rparr>
      in if listeners st1 then drawOnScreenImage False FromScroll (st1\<lparr>HDTimerId := True\<rparr>) else st1)"
| "handle (Resize w h) st =
     (let st1 = st\<lparr>innerWidth := w, innerHeight := h\<rparr>
      in if listeners st1 then setTheaterSize False FromResize st1 else st1)"
| "handle HDTimeout st =
     (if HDTimerId st then drawOnScreenImage True FromHDTimer (st\<lparr>HDTimerId := False\<rparr>) else st)"
| "handle IntervalTick st =
     (if intervalSet st then interval_callback st else st)"

definition step :: "event \<Rightarrow> state \<Rightarrow> state" where
  "step e st = microtasks (handle e st)"

definition run :: "event list \<Rightarrow> state \<Rightarrow> state" where
  "run es st = fold step es st"

text \<open>
  The object before the body of the constructor runs (the field initialisers of
  lines 70-75, with \<^verbatim>\<open>forwardLoading = Promise.resolve([])\<close> as promise \<open>0\<close>), in a
  host with a story element or none, a body height, a window size and a scroll
  offset. The canvas has the default size of the element until line 161 sets it.
\<close>

definition fulfilledPromise :: all_promise where
  "fulfilledPromise = \<lparr> remaining = 0, all_status = AllFulfilled, awaiting = [] \<rparr>"

definition newFrameByFrame :: "FrameByFrameOption \<Rightarrow> bool \<Rightarrow> real \<Rightarrow> real \<Rightarrow> real \<Rightarrow> real \<Rightarrow> state" where
  "newFrameByFrame opts story bodyHeight w h y =
     \<lparr> options = opts, canvasWidth = 300, canvasHeight = 150, storyEl = story,
       storyHeight = None, loadedImages = [], loadedHighResImages = [],
       imagesPath = getImagesPath opts, windowHeight = bodyHeight,
       forwardLoading = 0, isFowardLoading = False, HDTimerId = False,
       intervalSet = False, latestIntervalLoadedImage = 0, scrollTop = y,
       innerWidth = w, innerHeight = h, listeners = False, elements = Map.empty,
       sizes = (\<lambda>img. (0, 0)), created = 0, preloaded = fulfilledPromise,
       allPromises = (\<lambda>c. fulfilledPromise), promiseCount = 1, resumed = [],
       settledNow = [], transport = [], loadImageCalls = [], outputs = [] \<rparr>"

text \<open>The constructor: the preloader is called and line 104 reacts to its promise.\<close>

definition constructor :: "FrameByFrameOption \<Rightarrow> bool \<Rightarrow> real \<Rightarrow> real \<Rightarrow> real \<Rightarrow> real \<Rightarrow> state" where
  "constructor opts story bodyHeight w h y =
     microtasks (preloaded_settled (preloader (newFrameByFrame opts story bodyHeight w h y)))"

section \<open>Scenarios and predicates of the proofs\<close>

subsection \<open>A catalog of ten images\<close>


text \<open>
  The same catalog with distinct directories for the two tiers and an interval
  that loads a fifth of the catalog (two images) per tick; the object once its
  constructor has run; the events that take it to its first frame (the three
  preloaded images, then the high-resolution image 0); the object after them.
\<close>

definition demoOptions :: FrameByFrameOption where
  "demoOptions = defaultOptions\<lparr>imageHighResDir := ''high/'', imageLowResDir := ''low/'',
                                intervalLoadPercentage := 1 / 5\<rparr>"

definition started :: state where
  "started = constructor demoOptions True 600 800 400 0"

definition firstFrame :: "event list" where
  "firstFrame = [ImgLoad 0 400 300, ImgLoad 1 400 300, ImgLoad 2 400 300, ImgLoad 3 400 300]"

definition ready :: state where
  "ready = run firstFrame started"

subsection \<open>Before and after the preloader's promise is fulfilled\<close>

text \<open>The elements in flight that are members of the preloader's \<^verbatim>\<open>Promise.all\<close>.\<close>

definition preloadMembers :: "state \<Rightarrow> img set" where
  "preloadMembers st = {img. \<exists>el. elements st img = Some el \<and> el_then el = ByPreloader}"

text \<open>
  \<open>keeps st st'\<close>: from \<open>st\<close> to \<open>st'\<close> the preloader's promise is untouched and no
  member of it has been added.
\<close>

definition keeps :: "state \<Rightarrow> state \<Rightarrow> bool" where
  "keeps st st' \<longleftrightarrow> preloaded st' = preloaded st \<and> preloadMembers st' \<subseteq> preloadMembers st"

text \<open>
  \<open>notReady\<close>: the preloader's promise is not fulfilled, and nothing but the
  preloader has run: no listener, no timer, no \<^verbatim>\<open>onComplete\<close>, only members of
  the preload in flight, and a waiting promise counts exactly those.
  \<open>preloadDone\<close>: the promise is fulfilled and no member is in flight.
\<close>

definition notReady :: "state \<Rightarrow> bool" where
  "notReady st \<longleftrightarrow>
     OnComplete \<notin> set (outputs st) \<and> \<not> listeners st \<and> \<not> intervalSet st \<and> \<not> HDTimerId st
     \<and> resumed st = [] \<and> settledNow st = []
     \<and> dom (elements st) \<subseteq> preloadMembers st \<and> dom (elements st) \<subseteq> {..< created st}
     \<and> all_status (preloaded st) \<noteq> AllFulfilled
     \<and> (all_status (preloaded st) = AllWaiting \<longrightarrow>
          remaining (preloaded st) = card (preloadMembers st) \<and> preloadMembers st \<noteq> {})"

definition preloadDone :: "state \<Rightarrow> bool" where
  "preloadDone st \<longleftrightarrow> all_status (preloaded st) = AllFulfilled \<and> preloadMembers st = {}"

text \<open>
  \<open>memberFired\<close>: as \<open>notReady\<close>, between the removal of a member that fired an
  event and the reaction of the promise. \<open>preloadFailed\<close>: \<open>notReady\<close> with a
  rejected promise. \<open>preloading\<close>: the invariant of the preloader's loop.
\<close>

definition memberFired :: "state \<Rightarrow> bool" where
  "memberFired st \<longleftrightarrow>
     OnComplete \<notin> set (outputs st) \<and> \<not> listeners st \<and> \<not> intervalSet st \<and> \<not> HDTimerId st
     \<and> resumed st = [] \<and> settledNow st = []
     \<and> dom (elements st) \<subseteq> preloadMembers st \<and> dom (elements st) \<subseteq> {..< created st}
     \<and> all_status (preloaded st) \<noteq> AllFulfilled
     \<and> (all_status (preloaded st) = AllWaiting \<longrightarrow>
          remaining (preloaded st) = Suc (card (preloadMembers st)))"

definition preloadFailed :: "state \<Rightarrow> bool" where
  "preloadFailed st \<longleftrightarrow> notReady st \<and> (\<exists>x. all_status (preloaded st) = AllRejected x)"

definition preloading :: "promise list \<Rightarrow> state \<Rightarrow> bool" where
  "preloading ps st \<longleftrightarrow>
     loadedImages st = [] \<and> OnComplete \<notin> set (outputs st) \<and> \<not> listeners st
     \<and> \<not> intervalSet st \<and> \<not> HDTimerId st \<and> resumed st = [] \<and> settledNow st = []
     \<and> dom (elements st) \<subseteq> preloadMembers st \<and> dom (elements st) \<subseteq> {..< created st}
     \<and> firstRejected ps = None \<and> length (filter isPending ps) = card (preloadMembers st)"

subsection \<open>The queues of the microtasks\<close>

text \<open>
  \<open>tidy\<close>: no call of \<^verbatim>\<open>forwardLoad\<close> is suspended on a settled chain, and the
  chains whose callback of line 317 is queued exist and are settled.
  \<open>sync st st'\<close>: from \<open>st\<close> to \<open>st'\<close> tidiness is kept and no such callback is queued.
  \<open>settledQuiet cs st\<close>: \<open>st\<close> is tidy with empty queues, and the chains \<open>cs\<close> are
  settled.
\<close>

definition tidy :: "state \<Rightarrow> bool" where
  "tidy st \<longleftrightarrow>
     (\<forall>c. all_status (allPromises st c) \<noteq> AllWaiting \<longrightarrow> awaiting (allPromises st c) = [])
     \<and> (\<forall>c \<in> set (settledNow st).
          c < promiseCount st \<and> all_status (allPromises st c) \<noteq> AllWaiting)"

definition sync :: "state \<Rightarrow> state \<Rightarrow> bool" where
  "sync st st' \<longleftrightarrow> (tidy st \<longrightarrow> tidy st' \<and> settledNow st' = settledNow st)"

definition settledQuiet :: "nat list \<Rightarrow> state \<Rightarrow> bool" where
  "settledQuiet cs st \<longleftrightarrow>
     tidy st \<and> resumed st = [] \<and> settledNow st = []
     \<and> (\<forall>c \<in> set cs. all_status (allPromises st c) \<noteq> AllWaiting)"

section \<open>Every microtask of a task runs within it\<close>

text \<open>
  The event loop above runs the queued continuations of \<^verbatim>\<open>forwardLoad\<close> and then
  the callbacks of the chains that settled without waiting, once. This section
  shows that nothing is left over: in every state that the constructor and the
  events can reach, both queues are empty between two tasks.
\<close>

lemma sync_refl: "sync st st"
  by (simp add: sync_def)

lemma sync_trans: "sync a b \<Longrightarrow> sync b c \<Longrightarrow> sync a c"
  by (auto simp: sync_def)

lemma sync_same:
  "allPromises st' = allPromises st \<Longrightarrow> settledNow st' = settledNow st \<Longrightarrow>
   promiseCount st' = promiseCount st \<Longrightarrow> sync st st'"
  by (simp add: sync_def tidy_def)

lemma sync_emit: "sync st (emit x st)"
  by (rule sync_same) (simp_all add: emit_def)

lemma sync_loadImage: "loadImage i h r k st = (p, st') \<Longrightarrow> sync st st'"
  by (rule sync_same) (auto simp: loadImage_def Let_def split: option.splits if_splits)

lemma sync_loadImages: "loadImages i ub k ps st = (ps', st') \<Longrightarrow> sync st st'"
proof (induction i ub k ps st arbitrary: ps' st' rule: loadImages.induct)
  case (1 i ub k promises st)
  show ?case
  proof (cases "real_of_int i < ub")
    case True
    obtain p st1 where l: "loadImage i False False k st = (p, st1)"
      by (cases "loadImage i False False k st")
    have "loadImages (i + 1) ub k (promises @ [p]) st1 = (ps', st')"
      using "1.prems" True l by (simp add: loadImages.simps [of i])
    then have "sync st1 st'"
      using "1.IH" [OF True l [symmetric]] by simp
    then show ?thesis
      using sync_loadImage [OF l] by (blast intro: sync_trans)
  next
    case False
    then show ?thesis
      using "1.prems" by (simp add: loadImages.simps [of i] sync_refl)
  qed
qed

lemma sync_forwardLoad: "sync st (forwardLoad i st)"
  by (auto simp: sync_def tidy_def forwardLoad_def Let_def)

lemma sync_forwardLoading_settled: "sync st (forwardLoading_settled c st)"
  by (auto simp: sync_def tidy_def forwardLoading_settled_def Let_def emit_def split: all_state.splits)

lemma sync_forwardLoading_member: "sync st (forwardLoading_member c outcome st)"
proof (cases "all_status (allPromises st c) = AllWaiting")
  case True
  define st1 where "st1 = st\<lparr>allPromises := (allPromises st)(c := memberSettled outcome (allPromises st c))\<rparr>"
  have eq: "forwardLoading_member c outcome st = forwardLoading_settled c st1"
    using True by (simp add: forwardLoading_member_def Let_def st1_def)
  show ?thesis
  proof (cases "all_status (memberSettled outcome (allPromises st c)) = AllWaiting")
    case waiting: True
    then have "forwardLoading_settled c st1 = st1"
      by (simp add: forwardLoading_settled_def Let_def st1_def)
    moreover have "awaiting (memberSettled outcome (allPromises st c)) = awaiting (allPromises st c)"
      by (simp add: memberSettled_def split: sum.split)
    ultimately show ?thesis
      using waiting True eq by (auto simp: sync_def tidy_def st1_def)
  next
    case settled: False
    have "tidy (forwardLoading_settled c st1) \<and> settledNow (forwardLoading_settled c st1) = settledNow st"
      if "tidy st"
      using that settled True
      by (auto simp: tidy_def forwardLoading_settled_def Let_def emit_def st1_def split: all_state.splits)
    then show ?thesis
      using eq by (simp add: sync_def)
  qed
next
  case False
  then have "memberSettled outcome (allPromises st c) = allPromises st c"
    by (simp add: memberSettled_def)
  then have "forwardLoading_member c outcome st = st"
    using False by (simp add: forwardLoading_member_def Let_def)
  then show ?thesis
    by (simp add: sync_refl)
qed

lemma sync_drawn: "sync st (drawn i img st)"
proof -
  have "sync st (drawOnCanvas img st)"
    by (simp add: drawOnCanvas_def sync_emit split: prod.split)
  then show ?thesis
    unfolding drawn_def by (blast intro: sync_trans sync_forwardLoad sync_emit)
qed

lemma sync_interval_while: "sync st (interval_while n st)"
proof (induction n st rule: interval_while.induct)
  case (1 n st)
  show ?case
  proof (cases "n > 0 \<and> latestIntervalLoadedImage st < numberOfImages st - 1")
    case True
    define st1 where "st1 = st\<lparr>latestIntervalLoadedImage := latestIntervalLoadedImage st + 1\<rparr>"
    obtain p st2 where l: "loadImage (latestIntervalLoadedImage st1) False True (ByInterval n) st1 = (p, st2)"
      by (cases "loadImage (latestIntervalLoadedImage st1) False True (ByInterval n) st1")
    have a: "sync st st1"
      by (rule sync_same) (simp_all add: st1_def)
    have ab: "sync st st2"
      using a sync_loadImage [OF l] by (rule sync_trans)
    show ?thesis
    proof (cases p)
      case (Resolved img)
      have "sync st2 (interval_while (n - 1) st2)"
        using "1.IH" [OF True st1_def l [symmetric] Resolved] .
      then show ?thesis
        using True l Resolved ab
        by (simp add: interval_while.simps [of n st] Let_def st1_def [symmetric] sync_trans)
    next
      case (Rejected e)
      then show ?thesis
        using True l ab
        by (simp add: interval_while.simps [of n st] Let_def st1_def [symmetric])
           (blast intro: sync_trans sync_emit)
    next
      case (Pending img)
      then show ?thesis
        using True l ab
        by (simp add: interval_while.simps [of n st] Let_def st1_def [symmetric])
    qed
  next
    case False
    then have "interval_while n st = st"
      by (subst interval_while.simps) auto
    then show ?thesis
      by (simp add: sync_refl)
  qed
qed

lemma sync_interval_settled: "sync st (interval_settled n outcome st)"
  by (simp add: interval_settled_def sync_interval_while sync_emit split: sum.split)

lemma sync_interval_callback: "sync st (interval_callback st)"
proof -
  have "sync st (st\<lparr>intervalSet := False\<rparr>)"
    by (rule sync_same) simp_all
  then show ?thesis
    by (simp add: interval_callback_def sync_interval_while sync_refl)
qed

lemma sync_theaterReady: "sync st (theaterReady st)"
proof -
  have a: "sync st (st\<lparr>listeners := True\<rparr>)"
    by (rule sync_same) simp_all
  have b: "sync (st\<lparr>listeners := True\<rparr>) st2" if "setIntervalLoad (st\<lparr>listeners := True\<rparr>) = Inr st2" for st2
    using that by (intro sync_same) (auto simp: setIntervalLoad_def split: sum.splits)
  show ?thesis
    unfolding theaterReady_def Let_def
    using a b by (auto split: sum.split intro: sync_trans sync_emit)
qed

lemma sync_caller_then: "sync st (caller_then who st)"
  by (cases who) (simp_all add: sync_theaterReady sync_emit sync_refl)

lemma sync_displayed: "sync st (displayed who i outcome st)"
  unfolding displayed_def
  by (auto split: sum.split intro: sync_trans sync_drawn sync_caller_then sync_emit)

lemma sync_drawOnScreenImage: "sync st (drawOnScreenImage highRes who st)"
proof -
  obtain p st1 where l: "loadImage (getRequestedImageIndex st) highRes False
      (ByDraw who (getRequestedImageIndex st)) st = (p, st1)"
    by (cases "loadImage (getRequestedImageIndex st) highRes False
      (ByDraw who (getRequestedImageIndex st)) st")
  show ?thesis
    using l sync_loadImage [OF l]
    by (cases p) (auto simp: drawOnScreenImage_def Let_def intro: sync_trans sync_displayed)
qed

lemma sync_setTheaterSize: "sync st (setTheaterSize highRes who st)"
proof -
  have "sync st (st\<lparr>canvasWidth := innerWidth st, canvasHeight := innerHeight st,
           storyHeight := (if storyEl st
                           then Some (real_of_int (numberOfImages st) * pxPerImg (options st)
                                        + windowHeight st)
                           else storyHeight st)\<rparr>)"
    by (rule sync_same) simp_all
  then show ?thesis
    unfolding setTheaterSize_def by (rule sync_trans) (rule sync_drawOnScreenImage)
qed

lemma sync_preloader: "sync st (preloader st)"
proof -
  obtain ps st1 where l: "loadImages 0 (real_of_int (numberOfImages st) * preLoadingPercentage (options st))
             ByPreloader [] st = (ps, st1)"
    by (cases "loadImages 0 (real_of_int (numberOfImages st) * preLoadingPercentage (options st))
             ByPreloader [] st")
  have "sync st1 (st1\<lparr>preloaded := Promise_all ps\<rparr>)"
    by (rule sync_same) simp_all
  then show ?thesis
    using l sync_loadImages [OF l] by (simp add: preloader_def) (blast intro: sync_trans)
qed

lemma sync_preloaded_settled: "sync st (preloaded_settled st)"
  by (simp add: preloaded_settled_def sync_setTheaterSize sync_emit sync_refl split: all_state.split)

lemma sync_preloaded_member: "sync st (preloaded_member outcome st)"
proof -
  have "sync st (st\<lparr>preloaded := memberSettled outcome (preloaded st)\<rparr>)"
    by (rule sync_same) simp_all
  then show ?thesis
    by (auto simp: preloaded_member_def Let_def intro: sync_trans sync_preloaded_settled)
qed

lemma sync_react: "sync st (react k outcome st)"
  by (cases k)
     (simp_all add: sync_preloaded_member sync_displayed sync_forwardLoading_member sync_interval_settled)

lemma sync_handle: "sync st (handle e st)"
proof (cases e)
  case (ImgLoad img w h)
  show ?thesis
  proof (cases "elements st img")
    case None
    then show ?thesis using ImgLoad by (simp add: sync_refl)
  next
    case (Some el)
    define st2 where "st2 = (let st1 = st\<lparr>elements := (elements st)(img := None), sizes := (sizes st)(img := (w, h))\<rparr>
      in if el_highRes el
                      then st1\<lparr>loadedHighResImages :=
                                 AList.update (el_index el) img (loadedHighResImages st1)\<rparr>
                      else st1\<lparr>loadedImages := AList.update (el_index el) img (loadedImages st1)\<rparr>)"
    have "sync st st2"
      by (rule sync_same) (simp_all add: st2_def Let_def)
    then have "sync st (react (el_then el) (Inr img) st2)"
      using sync_react by (blast intro: sync_trans)
    moreover have "handle e st = react (el_then el) (Inr img) st2"
      using ImgLoad Some by (simp add: st2_def Let_def)
    ultimately show ?thesis
      by simp
  qed
next
  case (ImgError img)
  show ?thesis
  proof (cases "elements st img")
    case None
    then show ?thesis using ImgError by (simp add: sync_refl)
  next
    case (Some el)
    have "sync st (st\<lparr>elements := (elements st)(img := None)\<rparr>)"
      by (rule sync_same) simp_all
    then have "sync st (react (el_then el) (Inl (ErrorEvent img)) (st\<lparr>elements := (elements st)(img := None)\<rparr>))"
      using sync_react by (blast intro: sync_trans)
    then show ?thesis
      using ImgError Some by simp
  qed
next
  case (Scroll y)
  have a: "sync st (st\<lparr>scrollTop := y\<rparr>)"
    by (rule sync_same) simp_all
  have b: "sync st (st\<lparr>scrollTop := y, HDTimerId := True\<rparr>)"
    by (rule sync_same) simp_all
  show ?thesis
    using Scroll a b by (auto simp: Let_def intro: sync_trans sync_drawOnScreenImage)
next
  case (Resize w h)
  have a: "sync st (st\<lparr>innerWidth := w, innerHeight := h\<rparr>)"
    by (rule sync_same) simp_all
  show ?thesis
    using Resize a by (auto simp: Let_def intro: sync_trans sync_setTheaterSize)
next
  case HDTimeout
  have a: "sync st (st\<lparr>HDTimerId := False\<rparr>)"
    by (rule sync_same) simp_all
  show ?thesis
    using HDTimeout a by (auto simp: sync_refl intro: sync_trans sync_drawOnScreenImage)
next
  case IntervalTick
  then show ?thesis
    by (simp add: sync_refl sync_interval_callback)
qed

lemma queues_loadImage:
  "loadImage i h r k st = (p, st') \<Longrightarrow>
   allPromises st' = allPromises st \<and> settledNow st' = settledNow st
   \<and> resumed st' = resumed st \<and> promiseCount st' = promiseCount st"
  by (auto simp: loadImage_def Let_def split: option.splits if_splits)

lemma queues_loadImages:
  "loadImages i ub k ps st = (ps', st') \<Longrightarrow>
   allPromises st' = allPromises st \<and> settledNow st' = settledNow st
   \<and> resumed st' = resumed st \<and> promiseCount st' = promiseCount st"
proof (induction i ub k ps st arbitrary: ps' st' rule: loadImages.induct)
  case (1 i ub k promises st)
  show ?case
  proof (cases "real_of_int i < ub")
    case True
    obtain p st1 where l: "loadImage i False False k st = (p, st1)"
      by (cases "loadImage i False False k st")
    have "loadImages (i + 1) ub k (promises @ [p]) st1 = (ps', st')"
      using "1.prems" True l by (simp add: loadImages.simps [of i])
    then show ?thesis
      using "1.IH" [OF True l [symmetric]] queues_loadImage [OF l] by simp
  next
    case False
    then show ?thesis
      using "1.prems" by (simp add: loadImages.simps [of i])
  qed
qed

lemma tidy_forwardLoad_awaited:
  assumes "tidy st"
  shows "tidy (forwardLoad_awaited i st) \<and> resumed (forwardLoad_awaited i st) = resumed st"
proof -
  define c where "c = promiseCount st"
  obtain ps st1 where l: "loadImages (i + 1) (getForwardLoadingUpperBound i st) (ByForward c) []
      (st\<lparr>promiseCount := Suc c\<rparr>) = (ps, st1)"
    by (cases "loadImages (i + 1) (getForwardLoadingUpperBound i st) (ByForward c) []
      (st\<lparr>promiseCount := Suc c\<rparr>)")
  have q: "allPromises st1 = allPromises st" "settledNow st1 = settledNow st"
      "resumed st1 = resumed st" "promiseCount st1 = Suc c"
    using queues_loadImages [OF l] by simp_all
  define st2 where "st2 = st1\<lparr>allPromises := (allPromises st1)(c := Promise_all ps),
      forwardLoading := c, isFowardLoading := True\<rparr>"
  have fresh: "c \<notin> set (settledNow st)"
    using assms by (auto simp: tidy_def c_def)
  have old: "\<forall>d \<in> set (settledNow st). d < Suc c \<and> all_status (allPromises st d) \<noteq> AllWaiting"
    using assms by (auto simp: tidy_def c_def)
  have idle: "\<forall>d. d \<noteq> c \<longrightarrow> all_status (allPromises st d) \<noteq> AllWaiting \<longrightarrow> awaiting (allPromises st d) = []"
    using assms by (simp add: tidy_def)
  have new: "awaiting (Promise_all ps) = []"
    by (simp add: Promise_all_def)
  have t2: "tidy st2"
    unfolding tidy_def using fresh old idle new q by (auto simp: st2_def)
  have t3: "tidy (st2\<lparr>settledNow := settledNow st2 @ [c]\<rparr>)"
    if "all_status (Promise_all ps) \<noteq> AllWaiting"
    using t2 that q unfolding tidy_def by (auto simp: st2_def)
  have "forwardLoad_awaited i st
      = (if all_status (Promise_all ps) = AllWaiting then st2
         else st2\<lparr>settledNow := settledNow st2 @ [c]\<rparr>)"
    using l by (simp add: forwardLoad_awaited_def Let_def c_def [symmetric] st2_def)
  then show ?thesis
    using t2 t3 q by (simp add: st2_def)
qed

lemma tidy_forwardLoad_resume:
  assumes "tidy st"
  shows "tidy (forwardLoad_resume r st) \<and> resumed (forwardLoad_resume r st) = resumed st"
proof (cases "all_status (allPromises st (snd r))")
  case AllWaiting
  then show ?thesis using assms by (simp add: forwardLoad_resume_def)
next
  case AllFulfilled
  then show ?thesis using tidy_forwardLoad_awaited [OF assms] by (simp add: forwardLoad_resume_def)
next
  case (AllRejected e)
  then show ?thesis using assms by (simp add: forwardLoad_resume_def emit_def tidy_def)
qed

lemma tidy_fold_resume:
  "tidy st \<Longrightarrow> tidy (fold forwardLoad_resume rs st)
     \<and> resumed (fold forwardLoad_resume rs st) = resumed st"
proof (induction rs arbitrary: st)
  case Nil
  then show ?case by simp
next
  case (Cons r rs)
  show ?case
    using Cons.IH [of "forwardLoad_resume r st"] tidy_forwardLoad_resume [OF Cons.prems, of r]
    by simp
qed

lemma settledQuiet_step:
  assumes "settledQuiet (c # cs) st"
  shows "settledQuiet cs (forwardLoading_settled c st)"
proof -
  have quiet: "awaiting (allPromises st c) = []" and settled: "all_status (allPromises st c) \<noteq> AllWaiting"
    using assms by (auto simp: settledQuiet_def tidy_def)
  show ?thesis
    using assms quiet settled unfolding settledQuiet_def tidy_def
    by (cases "all_status (allPromises st c)")
       (auto simp: forwardLoading_settled_def Let_def emit_def)
qed

lemma settledQuiet_fold:
  "settledQuiet cs st \<Longrightarrow> settledQuiet [] (fold forwardLoading_settled cs st)"
proof (induction cs arbitrary: st)
  case Nil
  then show ?case by simp
next
  case (Cons c cs)
  show ?case
    using Cons.IH [OF settledQuiet_step [OF Cons.prems]] by simp
qed

lemma microtasks_drained:
  assumes "tidy st"
  shows "tidy (microtasks st) \<and> resumed (microtasks st) = [] \<and> settledNow (microtasks st) = []"
proof -
  define st1 where "st1 = fold forwardLoad_resume (resumed st) (st\<lparr>resumed := []\<rparr>)"
  have "tidy (st\<lparr>resumed := []\<rparr>)"
    using assms by (simp add: tidy_def)
  then have t1: "tidy st1" and r1: "resumed st1 = []"
    using tidy_fold_resume [of "st\<lparr>resumed := []\<rparr>" "resumed st"] by (simp_all add: st1_def)
  have "settledQuiet (settledNow st1) (st1\<lparr>settledNow := []\<rparr>)"
    using t1 r1 by (auto simp: settledQuiet_def tidy_def)
  then have "settledQuiet [] (fold forwardLoading_settled (settledNow st1) (st1\<lparr>settledNow := []\<rparr>))"
    by (rule settledQuiet_fold)
  then show ?thesis
    by (simp add: microtasks_def Let_def st1_def [symmetric] settledQuiet_def)
qed

lemma tidy_step:
  assumes "tidy st" and "settledNow st = []"
  shows "tidy (step e st) \<and> resumed (step e st) = [] \<and> settledNow (step e st) = []"
proof -
  have "tidy (handle e st)"
    using sync_handle [of st e] assms(1) by (simp add: sync_def)
  then show ?thesis
    unfolding step_def by (rule microtasks_drained)
qed

lemma tidy_run:
  "tidy st \<Longrightarrow> resumed st = [] \<Longrightarrow> settledNow st = [] \<Longrightarrow>
   tidy (run es st) \<and> resumed (run es st) = [] \<and> settledNow (run es st) = []"
proof (induction es arbitrary: st)
  case Nil
  then show ?case by (simp add: run_def)
next
  case (Cons e es)
  have "run (e # es) st = run es (step e st)"
    by (simp add: run_def)
  then show ?case
    using Cons.IH [of "step e st"] tidy_step [OF Cons.prems(1,3), of e] by simp
qed

lemma tidy_constructor:
  "tidy (constructor opts story bodyHeight w h y)
   \<and> resumed (constructor opts story bodyHeight w h y) = []
   \<and> settledNow (constructor opts story bodyHeight w h y) = []"
proof -
  define st0 where "st0 = newFrameByFrame opts story bodyHeight w h y"
  have "tidy st0"
    by (simp add: tidy_def st0_def newFrameByFrame_def fulfilledPromise_def)
  then have "tidy (preloaded_settled (preloader st0))"
    using sync_preloader [of st0] sync_preloaded_settled [of "preloader st0"]
    by (simp add: sync_def)
  then show ?thesis
    unfolding constructor_def st0_def [symmetric] by (rule microtasks_drained)
qed

theorem no_microtask_left:
  "resumed (run es (constructor opts story bodyHeight w h y)) = []
   \<and> settledNow (run es (constructor opts story bodyHeight w h y)) = []"
  using tidy_run [of "constructor opts story bodyHeight w h y" es]
    tidy_constructor [of opts story bodyHeight w h y]
  by simp

section \<open>Properties of the frame index\<close>

lemma requestedIndex_min_eq:
  "requestedIndex_min s h p n = min (int n - 1) \<lfloor>s / p\<rfloor>"
  by (simp add: requestedIndex_min_def add_divide_distrib)

lemma requestedIndex_eq:
  "requestedIndex s h p n = min (int n - 1) \<lfloor>s / p\<rfloor>"
  by (simp add: requestedIndex_def requestedIndex_min_eq Let_def)




text \<open>
  C9. For a fixed window height, a pitch \<open>p > 0\<close> and a catalog of \<open>n \<ge> 1\<close> images,
  the resolved index is monotonically non-decreasing in the scroll offset.
\<close>

theorem C9_index_monotone:
  assumes "p > 0" and "n \<ge> 1" and "a \<le> b"
  shows "requestedIndex a h p n \<le> requestedIndex b h p n"
proof -
  have "a / p \<le> b / p"
    using assms(1,3) by (simp add: divide_right_mono)
  then have "\<lfloor>a / p\<rfloor> \<le> \<lfloor>b / p\<rfloor>"
    by (rule floor_mono)
  then show ?thesis
    by (simp add: requestedIndex_eq min.coboundedI2)
qed

theorem C9_index_monotone_witness:
  "requestedIndex (- 30) 600 27 10 \<le> requestedIndex 100 600 27 10
   \<and> requestedIndex 100 600 27 10 \<le> requestedIndex 5000 600 27 10"
  using C9_index_monotone [of 27 10 "- 30" 100 600] C9_index_monotone [of 27 10 100 5000 600]
  by simp

text \<open>
  C10. In exact arithmetic and with a pitch \<open>p > 0\<close>, the window-height terms of
  \<open>\<lfloor>(s + h) / p - h / p\<rfloor>\<close> cancel, the resolver returns \<open>min (n - 1) \<lfloor>s / p\<rfloor>\<close>,
  and the \<^verbatim>\<open>if\<close> of lines 298-300 leaves the value of the preceding
  \<^verbatim>\<open>Math.min\<close> unchanged.
\<close>

theorem C10_index_is_floor_of_quotient:
  assumes "p > 0"
  shows "requestedIndex s h p n = min (int n - 1) \<lfloor>s / p\<rfloor>
       \<and> requestedIndex s h p n = requestedIndex_min s h p n
       \<and> requestedIndex_min s h p n = min (int n - 1) \<lfloor>s / p\<rfloor>"
  by (simp add: requestedIndex_eq requestedIndex_min_eq)

theorem C10_index_is_floor_of_quotient_witness:
  "requestedIndex 100 600 27 10 = min (int 10 - 1) \<lfloor>100 / (27 :: real)\<rfloor>
   \<and> requestedIndex 100 600 27 10 = requestedIndex_min 100 600 27 10"
  using C10_index_is_floor_of_quotient [of 27 100 600 10] by simp

section \<open>The cover fit on a 400 x 300 image\<close>

text \<open>
  C3, evaluated. For a 400 x 300 image on an 800 x 400 canvas the code crops the
  source rectangle \<open>(0, 75, 400, 150)\<close>: its aspect ratio is \<open>8 / 3\<close>, the canvas's is
  \<open>2\<close>, so the frame is drawn stretched. With \<^verbatim>\<open>imageHeight\<close> in line 216 the
  rectangle would be \<open>(0, 50, 400, 200)\<close>.
\<close>

theorem C3_cover_fit_400x300_on_800x400:
  "sourceRect 400 300 800 400 = (0, 75, 400, 150) \<and> (400 :: real) / 150 \<noteq> 800 / 400"
  by (simp add: sourceRect_def Math_round_def Let_def)

section \<open>loadImage: one transport fetch for every call that misses the cache\<close>





section \<open>The ranges of the preloader and of the forward loading\<close>
















section \<open>The preloader's promise and the entry into the ready state\<close>

subsection \<open>Functions that leave the preload alone\<close>

lemma keeps_refl: "keeps st st"
  by (simp add: keeps_def)

lemma keeps_trans: "keeps a b \<Longrightarrow> keeps b c \<Longrightarrow> keeps a c"
  by (auto simp: keeps_def)

lemma keeps_emit: "keeps st (emit x st)"
  by (simp add: keeps_def emit_def preloadMembers_def)

lemma keeps_loadImage:
  "k \<noteq> ByPreloader \<Longrightarrow> loadImage i h r k st = (p, st') \<Longrightarrow> keeps st st'"
  by (auto simp: keeps_def loadImage_def preloadMembers_def Let_def split: option.splits if_splits)

lemma keeps_loadImages:
  "k \<noteq> ByPreloader \<Longrightarrow> loadImages i ub k ps st = (ps', st') \<Longrightarrow> keeps st st'"
proof (induction i ub k ps st arbitrary: ps' st' rule: loadImages.induct)
  case (1 i ub k promises st)
  show ?case
  proof (cases "real_of_int i < ub")
    case True
    obtain p st1 where l: "loadImage i False False k st = (p, st1)"
      by (cases "loadImage i False False k st")
    have "loadImages (i + 1) ub k (promises @ [p]) st1 = (ps', st')"
      using "1.prems"(2) True l by (simp add: loadImages.simps [of i])
    then have "keeps st1 st'"
      using "1.IH" [OF True l [symmetric]] "1.prems"(1) by simp
    moreover have "keeps st st1"
      using keeps_loadImage [OF "1.prems"(1) l] .
    ultimately show ?thesis
      by (rule keeps_trans [rotated])
  next
    case False
    then show ?thesis
      using "1.prems"(2) by (simp add: loadImages.simps [of i] keeps_refl)
  qed
qed

lemma keeps_forwardLoad: "keeps st (forwardLoad i st)"
  by (simp add: keeps_def forwardLoad_def preloadMembers_def Let_def)

lemma keeps_forwardLoad_awaited: "keeps st (forwardLoad_awaited i st)"
proof -
  obtain ps st1 where l: "loadImages (i + 1) (getForwardLoadingUpperBound i st) (ByForward (promiseCount st)) []
      (st\<lparr>promiseCount := Suc (promiseCount st)\<rparr>) = (ps, st1)"
    by (cases "loadImages (i + 1) (getForwardLoadingUpperBound i st) (ByForward (promiseCount st)) []
      (st\<lparr>promiseCount := Suc (promiseCount st)\<rparr>)")
  have "keeps (st\<lparr>promiseCount := Suc (promiseCount st)\<rparr>) st1"
    using keeps_loadImages [OF _ l] by simp
  then show ?thesis
    using l by (simp add: forwardLoad_awaited_def Let_def keeps_def preloadMembers_def getForwardLoadingUpperBound_def numberOfImages_def)
qed

lemma keeps_forwardLoading_settled: "keeps st (forwardLoading_settled c st)"
  by (simp add: keeps_def forwardLoading_settled_def preloadMembers_def Let_def emit_def
           split: all_state.split)

lemma keeps_forwardLoad_resume: "keeps st (forwardLoad_resume r st)"
  by (simp add: forwardLoad_resume_def keeps_refl keeps_emit keeps_forwardLoad_awaited
           split: all_state.split)

lemma keeps_forwardLoading_member: "keeps st (forwardLoading_member c outcome st)"
proof -
  have "keeps st (st\<lparr>allPromises := (allPromises st)(c := memberSettled outcome (allPromises st c))\<rparr>)"
    by (simp add: keeps_def preloadMembers_def)
  then show ?thesis
    by (auto simp: forwardLoading_member_def Let_def intro: keeps_trans keeps_forwardLoading_settled)
qed

lemma keeps_drawn: "keeps st (drawn i img st)"
proof -
  have "keeps st (drawOnCanvas img st)"
    by (simp add: drawOnCanvas_def keeps_emit split: prod.split)
  then show ?thesis
    unfolding drawn_def by (blast intro: keeps_trans keeps_forwardLoad keeps_emit)
qed

lemma keeps_interval_while: "keeps st (interval_while n st)"
proof (induction n st rule: interval_while.induct)
  case (1 n st)
  show ?case
  proof (cases "n > 0 \<and> latestIntervalLoadedImage st < numberOfImages st - 1")
    case True
    define st1 where "st1 = st\<lparr>latestIntervalLoadedImage := latestIntervalLoadedImage st + 1\<rparr>"
    obtain p st2 where l: "loadImage (latestIntervalLoadedImage st1) False True (ByInterval n) st1 = (p, st2)"
      by (cases "loadImage (latestIntervalLoadedImage st1) False True (ByInterval n) st1")
    have a: "keeps st st1"
      by (simp add: st1_def keeps_def preloadMembers_def)
    have b: "keeps st1 st2"
      using keeps_loadImage [OF _ l] by simp
    have ab: "keeps st st2"
      using a b by (rule keeps_trans)
    show ?thesis
    proof (cases p)
      case (Resolved img)
      have "keeps st2 (interval_while (n - 1) st2)"
        using "1.IH" [OF True st1_def l [symmetric] Resolved] .
      then show ?thesis
        using True l Resolved ab
        by (simp add: interval_while.simps [of n st] Let_def st1_def [symmetric] keeps_trans)
    next
      case (Rejected e)
      then show ?thesis
        using True l ab
        by (simp add: interval_while.simps [of n st] Let_def st1_def [symmetric])
           (blast intro: keeps_trans keeps_emit)
    next
      case (Pending img)
      then show ?thesis
        using True l ab
        by (simp add: interval_while.simps [of n st] Let_def st1_def [symmetric])
    qed
  next
    case False
    then have "interval_while n st = st"
      by (subst interval_while.simps) auto
    then show ?thesis
      by (simp add: keeps_refl)
  qed
qed

lemma keeps_interval_settled: "keeps st (interval_settled n outcome st)"
  by (simp add: interval_settled_def keeps_interval_while keeps_emit split: sum.split)

lemma keeps_interval_callback: "keeps st (interval_callback st)"
  by (simp add: interval_callback_def keeps_interval_while keeps_refl)
     (simp add: keeps_def preloadMembers_def)

lemma keeps_theaterReady: "keeps st (theaterReady st)"
  by (auto simp: theaterReady_def setIntervalLoad_def Let_def keeps_def preloadMembers_def emit_def
           split: sum.splits)

lemma keeps_caller_then: "keeps st (caller_then who st)"
  by (cases who) (simp_all add: keeps_theaterReady keeps_emit keeps_refl)

lemma keeps_displayed: "keeps st (displayed who i outcome st)"
  unfolding displayed_def
  by (auto split: sum.split intro: keeps_trans keeps_drawn keeps_caller_then keeps_emit)

lemma keeps_drawOnScreenImage: "keeps st (drawOnScreenImage highRes who st)"
proof -
  obtain p st1 where l: "loadImage (getRequestedImageIndex st) highRes False
      (ByDraw who (getRequestedImageIndex st)) st = (p, st1)"
    by (cases "loadImage (getRequestedImageIndex st) highRes False
      (ByDraw who (getRequestedImageIndex st)) st")
  have "keeps st st1"
    using keeps_loadImage [OF _ l] by simp
  then show ?thesis
    using l by (cases p) (auto simp: drawOnScreenImage_def Let_def intro: keeps_trans keeps_displayed)
qed

lemma keeps_setTheaterSize: "keeps st (setTheaterSize highRes who st)"
proof -
  have "keeps st (st\<lparr>canvasWidth := innerWidth st, canvasHeight := innerHeight st,
           storyHeight := (if storyEl st
                           then Some (real_of_int (numberOfImages st) * pxPerImg (options st)
                                        + windowHeight st)
                           else storyHeight st)\<rparr>)"
    by (simp add: keeps_def preloadMembers_def)
  then show ?thesis
    unfolding setTheaterSize_def by (rule keeps_trans) (rule keeps_drawOnScreenImage)
qed

lemma keeps_fold:
  assumes "\<And>x s. keeps s (f x s)"
  shows "keeps st (fold f xs st)"
proof (induction xs arbitrary: st)
  case Nil
  show ?case by (simp add: keeps_refl)
next
  case (Cons x xs)
  show ?case
    using assms [of st x] Cons [of "f x st"] by (simp add: keeps_trans)
qed

lemma keeps_microtasks: "keeps st (microtasks st)"
proof -
  have a: "keeps st (st\<lparr>resumed := []\<rparr>)"
    by (simp add: keeps_def preloadMembers_def)
  define st1 where "st1 = fold forwardLoad_resume (resumed st) (st\<lparr>resumed := []\<rparr>)"
  have b: "keeps (st\<lparr>resumed := []\<rparr>) st1"
    unfolding st1_def by (rule keeps_fold) (rule keeps_forwardLoad_resume)
  have c: "keeps st1 (st1\<lparr>settledNow := []\<rparr>)"
    by (simp add: keeps_def preloadMembers_def)
  have d: "keeps (st1\<lparr>settledNow := []\<rparr>) (fold forwardLoading_settled (settledNow st1) (st1\<lparr>settledNow := []\<rparr>))"
    by (rule keeps_fold) (rule keeps_forwardLoading_settled)
  show ?thesis
    using a b c d unfolding microtasks_def Let_def st1_def [symmetric]
    by (blast intro: keeps_trans)
qed

subsection \<open>Once fulfilled, always fulfilled\<close>

lemma preloadDone_keeps: "preloadDone st \<Longrightarrow> keeps st st' \<Longrightarrow> preloadDone st'"
  by (auto simp: preloadDone_def keeps_def)

lemma keeps_react: "k \<noteq> ByPreloader \<Longrightarrow> keeps st (react k outcome st)"
  by (cases k) (simp_all add: keeps_displayed keeps_forwardLoading_member keeps_interval_settled)

lemma preloadDone_handle:
  assumes "preloadDone st"
  shows "preloadDone (handle e st)"
proof (cases e)
  case (ImgLoad img w h)
  show ?thesis
  proof (cases "elements st img")
    case None
    then show ?thesis using assms ImgLoad by simp
  next
    case (Some el)
    then have k: "el_then el \<noteq> ByPreloader"
      using assms by (auto simp: preloadDone_def preloadMembers_def)
    define st2 where "st2 = (let st1 = st\<lparr>elements := (elements st)(img := None), sizes := (sizes st)(img := (w, h))\<rparr>
      in if el_highRes el
                      then st1\<lparr>loadedHighResImages :=
                                 AList.update (el_index el) img (loadedHighResImages st1)\<rparr>
                      else st1\<lparr>loadedImages := AList.update (el_index el) img (loadedImages st1)\<rparr>)"
    have "keeps st st2"
      by (auto simp: st2_def keeps_def preloadMembers_def Let_def)
    then have "keeps st (react (el_then el) (Inr img) st2)"
      using keeps_react [OF k] by (blast intro: keeps_trans)
    moreover have "handle e st = react (el_then el) (Inr img) st2"
      using ImgLoad Some by (simp add: st2_def Let_def)
    ultimately show ?thesis
      using assms by (simp add: preloadDone_keeps)
  qed
next
  case (ImgError img)
  show ?thesis
  proof (cases "elements st img")
    case None
    then show ?thesis using assms ImgError by simp
  next
    case (Some el)
    then have k: "el_then el \<noteq> ByPreloader"
      using assms by (auto simp: preloadDone_def preloadMembers_def)
    have "keeps st (st\<lparr>elements := (elements st)(img := None)\<rparr>)"
      by (auto simp: keeps_def preloadMembers_def)
    then have "keeps st (react (el_then el) (Inl (ErrorEvent img)) (st\<lparr>elements := (elements st)(img := None)\<rparr>))"
      using keeps_react [OF k] by (blast intro: keeps_trans)
    then show ?thesis
      using assms ImgError Some by (simp add: preloadDone_keeps)
  qed
next
  case (Scroll y)
  have a: "keeps st (st\<lparr>scrollTop := y\<rparr>)"
    by (simp add: keeps_def preloadMembers_def)
  have b: "keeps st (st\<lparr>scrollTop := y, HDTimerId := True\<rparr>)"
    by (simp add: keeps_def preloadMembers_def)
  have "keeps st (handle e st)"
    using Scroll a b by (auto simp: Let_def intro: keeps_trans keeps_drawOnScreenImage)
  then show ?thesis
    using assms by (simp add: preloadDone_keeps)
next
  case (Resize w h)
  have a: "keeps st (st\<lparr>innerWidth := w, innerHeight := h\<rparr>)"
    by (simp add: keeps_def preloadMembers_def)
  have "keeps st (handle e st)"
    using Resize a by (auto simp: Let_def intro: keeps_trans keeps_setTheaterSize)
  then show ?thesis
    using assms by (simp add: preloadDone_keeps)
next
  case HDTimeout
  have a: "keeps st (st\<lparr>HDTimerId := False\<rparr>)"
    by (simp add: keeps_def preloadMembers_def)
  have "keeps st (handle e st)"
    using HDTimeout a by (auto simp: keeps_refl intro: keeps_trans keeps_drawOnScreenImage)
  then show ?thesis
    using assms by (simp add: preloadDone_keeps)
next
  case IntervalTick
  then have "keeps st (handle e st)"
    by (simp add: keeps_refl keeps_interval_callback)
  then show ?thesis
    using assms by (simp add: preloadDone_keeps)
qed

lemma preloadDone_step: "preloadDone st \<Longrightarrow> preloadDone (step e st)"
  unfolding step_def using preloadDone_handle preloadDone_keeps keeps_microtasks by blast

lemma microtasks_idle: "resumed st = [] \<Longrightarrow> settledNow st = [] \<Longrightarrow> microtasks st = st"
  by (simp add: microtasks_def)

subsection \<open>A member of the waiting preload fires an event\<close>

lemma finite_preloadMembers:
  "dom (elements st) \<subseteq> {..< created st} \<Longrightarrow> finite (preloadMembers st)"
proof -
  assume "dom (elements st) \<subseteq> {..< created st}"
  moreover have "preloadMembers st \<subseteq> dom (elements st)"
    by (auto simp: preloadMembers_def)
  ultimately have "preloadMembers st \<subseteq> {..< created st}"
    by blast
  then show ?thesis
    by (rule finite_subset) simp
qed

lemma preloaded_member_loaded:
  assumes "memberFired st"
  shows "notReady (preloaded_member (Inr img) st) \<or> preloadDone (preloaded_member (Inr img) st)"
proof -
  have fin: "finite (preloadMembers st)"
    using assms by (simp add: memberFired_def finite_preloadMembers)
  consider (rejected) e where "all_status (preloaded st) = AllRejected e"
    | (last) "all_status (preloaded st) = AllWaiting" "remaining (preloaded st) \<le> 1"
    | (more) "all_status (preloaded st) = AllWaiting" "remaining (preloaded st) > 1"
    using assms by (cases "all_status (preloaded st)") (auto simp: memberFired_def)
  then show ?thesis
  proof cases
    case rejected
    then have "preloaded_member (Inr img) st = st"
      by (simp add: preloaded_member_def memberSettled_def Let_def)
    then show ?thesis
      using assms rejected by (simp add: notReady_def memberFired_def)
  next
    case last
    define st1 where "st1 = st\<lparr>preloaded := (preloaded st)\<lparr>remaining := 0, all_status := AllFulfilled\<rparr>\<rparr>"
    have "card (preloadMembers st) = 0"
      using assms last by (simp add: memberFired_def)
    then have "preloadMembers st = {}"
      using fin by simp
    then have "preloadDone st1"
      by (simp add: st1_def preloadDone_def preloadMembers_def)
    moreover have "preloaded_member (Inr img) st = setTheaterSize True FromConstructor st1"
      using last by (simp add: preloaded_member_def memberSettled_def Let_def preloaded_settled_def st1_def)
    ultimately show ?thesis
      using preloadDone_keeps [OF _ keeps_setTheaterSize] by simp
  next
    case more
    define st1 where "st1 = st\<lparr>preloaded := (preloaded st)\<lparr>remaining := remaining (preloaded st) - 1\<rparr>\<rparr>"
    have eq: "preloaded_member (Inr img) st = st1"
      using more by (simp add: preloaded_member_def memberSettled_def Let_def preloaded_settled_def st1_def)
    have pm: "preloadMembers st1 = preloadMembers st"
      by (simp add: st1_def preloadMembers_def)
    have "card (preloadMembers st) \<ge> 1"
      using assms more by (simp add: memberFired_def)
    then have "preloadMembers st \<noteq> {}"
      by auto
    then have "notReady st1"
      using assms more pm by (simp add: notReady_def memberFired_def) (simp add: st1_def)
    then show ?thesis
      using eq by simp
  qed
qed

lemma preloaded_member_failed:
  assumes "memberFired st"
  shows "notReady (preloaded_member (Inl x) st)
       \<and> (\<exists>e. all_status (preloaded (preloaded_member (Inl x) st)) = AllRejected e)"
proof (cases "all_status (preloaded st)")
  case AllWaiting
  then have "preloaded_member (Inl x) st = emit (Unhandled x) (st\<lparr>preloaded := (preloaded st)\<lparr>all_status := AllRejected x\<rparr>\<rparr>)"
    by (simp add: preloaded_member_def memberSettled_def Let_def preloaded_settled_def)
  then show ?thesis
    using assms by (simp add: notReady_def memberFired_def emit_def preloadMembers_def)
next
  case AllFulfilled
  then show ?thesis
    using assms by (simp add: memberFired_def)
next
  case (AllRejected e)
  then have "preloaded_member (Inl x) st = st"
    by (simp add: preloaded_member_def memberSettled_def Let_def)
  then show ?thesis
    using assms AllRejected by (simp add: notReady_def memberFired_def)
qed

lemma memberFired_remove:
  assumes "notReady st" and "elements st img = Some el"
    and "elements st' = (elements st)(img := None)" and "outputs st' = outputs st"
    and "listeners st' = listeners st" and "intervalSet st' = intervalSet st"
    and "HDTimerId st' = HDTimerId st" and "resumed st' = resumed st"
    and "settledNow st' = settledNow st" and "created st' = created st"
    and "preloaded st' = preloaded st"
  shows "memberFired st'"
proof -
  have mem: "img \<in> preloadMembers st"
    using assms(1,2) by (auto simp: notReady_def)
  have pm: "preloadMembers st' = preloadMembers st - {img}"
    using assms(3) by (auto simp: preloadMembers_def)
  have fin: "finite (preloadMembers st)"
    using assms(1) by (simp add: notReady_def finite_preloadMembers)
  have card: "card (preloadMembers st) = Suc (card (preloadMembers st'))"
    using card.remove [OF fin mem] pm by simp
  have dom: "dom (elements st') \<subseteq> preloadMembers st'"
    using assms(1,3) pm by (auto simp: notReady_def)
  have dom2: "dom (elements st') \<subseteq> {..< created st'}"
    using assms(1,3,10) by (auto simp: notReady_def)
  have quiet: "OnComplete \<notin> set (outputs st') \<and> \<not> listeners st' \<and> \<not> intervalSet st' \<and> \<not> HDTimerId st'
     \<and> resumed st' = [] \<and> settledNow st' = [] \<and> all_status (preloaded st') \<noteq> AllFulfilled"
    using assms(1) by (simp add: notReady_def assms(4-11))
  have count: "all_status (preloaded st') = AllWaiting \<longrightarrow>
          remaining (preloaded st') = Suc (card (preloadMembers st'))"
    using assms(1) card by (simp add: notReady_def assms(11))
  show ?thesis
    unfolding memberFired_def using quiet dom dom2 count by blast
qed

lemma notReady_member:
  assumes "notReady st" and "elements st img = Some el"
  shows "el_then el = ByPreloader"
proof -
  have "img \<in> preloadMembers st"
    using assms by (auto simp: notReady_def)
  then show ?thesis
    using assms(2) by (simp add: preloadMembers_def)
qed

lemma notReady_handle:
  assumes "notReady st"
  shows "notReady (handle e st) \<or> preloadDone (handle e st)"
proof (cases e)
  case (ImgLoad img w h)
  show ?thesis
  proof (cases "elements st img")
    case None
    then show ?thesis using assms ImgLoad by simp
  next
    case (Some el)
    define st2 where "st2 = (let st1 = st\<lparr>elements := (elements st)(img := None), sizes := (sizes st)(img := (w, h))\<rparr>
      in if el_highRes el
                      then st1\<lparr>loadedHighResImages :=
                                 AList.update (el_index el) img (loadedHighResImages st1)\<rparr>
                      else st1\<lparr>loadedImages := AList.update (el_index el) img (loadedImages st1)\<rparr>)"
    have "memberFired st2"
      by (rule memberFired_remove [OF assms Some]) (simp_all add: st2_def Let_def)
    moreover have "handle e st = preloaded_member (Inr img) st2"
      using ImgLoad Some notReady_member [OF assms Some] by (simp add: st2_def Let_def)
    ultimately show ?thesis
      using preloaded_member_loaded by simp
  qed
next
  case (ImgError img)
  show ?thesis
  proof (cases "elements st img")
    case None
    then show ?thesis using assms ImgError by simp
  next
    case (Some el)
    have "memberFired (st\<lparr>elements := (elements st)(img := None)\<rparr>)"
      by (rule memberFired_remove [OF assms Some]) simp_all
    moreover have "handle e st = preloaded_member (Inl (ErrorEvent img)) (st\<lparr>elements := (elements st)(img := None)\<rparr>)"
      using ImgError Some notReady_member [OF assms Some] by simp
    ultimately show ?thesis
      using preloaded_member_failed by simp
  qed
next
  case (Scroll y)
  then show ?thesis
    using assms by (simp add: notReady_def preloadMembers_def Let_def)
next
  case (Resize w h)
  then show ?thesis
    using assms by (simp add: notReady_def preloadMembers_def Let_def)
next
  case HDTimeout
  then show ?thesis
    using assms by (simp add: notReady_def)
next
  case IntervalTick
  then show ?thesis
    using assms by (simp add: notReady_def)
qed

lemma notReady_microtasks: "notReady st \<Longrightarrow> microtasks st = st"
  by (simp add: notReady_def microtasks_idle)

lemma notReady_step:
  assumes "notReady st"
  shows "notReady (step e st) \<or> preloadDone (step e st)"
  using notReady_handle [OF assms, of e] notReady_microtasks [of "handle e st"]
    preloadDone_keeps [OF _ keeps_microtasks, of "handle e st"]
  by (auto simp: step_def)

lemma ready_or_not_step:
  "notReady st \<or> preloadDone st \<Longrightarrow> notReady (step e st) \<or> preloadDone (step e st)"
  using notReady_step preloadDone_step by blast

lemma ready_or_not_run:
  "notReady st \<or> preloadDone st \<Longrightarrow> notReady (run es st) \<or> preloadDone (run es st)"
proof (induction es arbitrary: st)
  case Nil
  then show ?case by (simp add: run_def)
next
  case (Cons e es)
  have "run (e # es) st = run es (step e st)"
    by (simp add: run_def)
  then show ?case
    using Cons.IH [OF ready_or_not_step [OF Cons.prems]] by simp
qed

lemma preloadFailed_step:
  assumes "preloadFailed st"
  shows "preloadFailed (step e st)"
proof -
  obtain x where x: "all_status (preloaded st) = AllRejected x" and nr: "notReady st"
    using assms by (auto simp: preloadFailed_def)
  have member: "\<And>outcome st2. preloaded st2 = preloaded st \<Longrightarrow> preloaded_member outcome st2 = st2"
    using x by (simp add: preloaded_member_def memberSettled_def Let_def)
  have "all_status (preloaded (handle e st)) = AllRejected x"
  proof (cases e)
    case (ImgLoad img w h)
    show ?thesis
    proof (cases "elements st img")
      case None
      then show ?thesis using x ImgLoad by simp
    next
      case (Some el)
      then show ?thesis
        using x ImgLoad notReady_member [OF nr Some] by (simp add: Let_def member)
    qed
  next
    case (ImgError img)
    show ?thesis
    proof (cases "elements st img")
      case None
      then show ?thesis using x ImgError by simp
    next
      case (Some el)
      then show ?thesis
        using x ImgError notReady_member [OF nr Some] by (simp add: Let_def member)
    qed
  next
    case (Scroll y)
    then show ?thesis using x nr by (simp add: notReady_def Let_def)
  next
    case (Resize w h)
    then show ?thesis using x nr by (simp add: notReady_def Let_def)
  next
    case HDTimeout
    then show ?thesis using x nr by (simp add: notReady_def)
  next
    case IntervalTick
    then show ?thesis using x nr by (simp add: notReady_def)
  qed
  moreover have "notReady (handle e st)"
    using notReady_handle [OF nr, of e] calculation by (auto simp: preloadDone_def)
  ultimately show ?thesis
    by (simp add: preloadFailed_def step_def notReady_microtasks)
qed

lemma preloadFailed_run: "preloadFailed st \<Longrightarrow> preloadFailed (run es st)"
proof (induction es arbitrary: st)
  case Nil
  then show ?case by (simp add: run_def)
next
  case (Cons e es)
  have "run (e # es) st = run es (step e st)"
    by (simp add: run_def)
  then show ?case
    using Cons.IH [OF preloadFailed_step [OF Cons.prems]] by simp
qed

lemma run_append: "run (es1 @ es2) st = run es2 (run es1 st)"
  by (simp add: run_def)

subsection \<open>The constructor\<close>

lemma firstRejected_snoc_Pending:
  "firstRejected (ps @ [Pending img]) = firstRejected ps"
  by (induction ps rule: firstRejected.induct) simp_all

lemma preloading_loadImage:
  assumes "preloading ps st" and "loadImage i False False ByPreloader st = (p, st1)"
  shows "preloading (ps @ [p]) st1"
proof -
  define el where "el = \<lparr>el_index = i, el_highRes = False,
      el_src = imageSrc i False (st\<lparr>loadImageCalls := loadImageCalls st @ [(i, False, False)]\<rparr>),
      el_then = ByPreloader\<rparr>"
  have p: "p = Pending (created st)"
    and st1: "st1 = st\<lparr>loadImageCalls := loadImageCalls st @ [(i, False, False)],
                      created := Suc (created st),
                      elements := (elements st)(created st \<mapsto> el),
                      transport := transport st @ [(created st, el_src el)]\<rparr>"
    using assms by (auto simp: preloading_def loadImage_def Let_def el_def)
  have fin: "finite (preloadMembers st)"
    using assms(1) by (simp add: preloading_def finite_preloadMembers)
  have "preloadMembers st \<subseteq> dom (elements st)"
    by (auto simp: preloadMembers_def)
  then have fresh: "created st \<notin> preloadMembers st"
    using assms(1) by (auto simp: preloading_def)
  have pm: "preloadMembers st1 = insert (created st) (preloadMembers st)"
    by (auto simp: st1 preloadMembers_def el_def)
  have "card (preloadMembers st1) = Suc (card (preloadMembers st))"
    using fin fresh pm by simp
  moreover have "dom (elements st1) \<subseteq> preloadMembers st1"
    using assms(1) pm by (auto simp: preloading_def st1)
  moreover have "dom (elements st1) \<subseteq> {..< created st1}"
    using assms(1) by (auto simp: preloading_def st1)
  ultimately show ?thesis
    using assms(1) unfolding preloading_def
    by (simp add: p firstRejected_snoc_Pending) (simp add: st1)
qed

lemma preloading_loadImages:
  "preloading ps st \<Longrightarrow> loadImages i ub ByPreloader ps st = (ps', st') \<Longrightarrow> preloading ps' st'"
proof (induction i ub ByPreloader ps st arbitrary: ps' st' rule: loadImages.induct)
  case (1 i ub promises st)
  show ?case
  proof (cases "real_of_int i < ub")
    case True
    obtain p st1 where l: "loadImage i False False ByPreloader st = (p, st1)"
      by (cases "loadImage i False False ByPreloader st")
    have "loadImages (i + 1) ub ByPreloader (promises @ [p]) st1 = (ps', st')"
      using "1.prems"(2) True l by (simp add: loadImages.simps [of i])
    then show ?thesis
      using "1.hyps" [OF True l [symmetric] preloading_loadImage [OF "1.prems"(1) l]] by simp
  next
    case False
    then show ?thesis
      using "1.prems" by (simp add: loadImages.simps [of i])
  qed
qed

lemma ready_or_not_constructor:
  "notReady (constructor opts story bodyHeight w h y)
   \<or> preloadDone (constructor opts story bodyHeight w h y)"
proof -
  define st0 where "st0 = newFrameByFrame opts story bodyHeight w h y"
  obtain ps st1 where l: "loadImages 0 (real_of_int (numberOfImages st0) * preLoadingPercentage (options st0))
             ByPreloader [] st0 = (ps, st1)"
    by (cases "loadImages 0 (real_of_int (numberOfImages st0) * preLoadingPercentage (options st0))
             ByPreloader [] st0")
  have "preloading [] st0"
    by (simp add: preloading_def st0_def newFrameByFrame_def preloadMembers_def)
  then have pre: "preloading ps st1"
    using l by (rule preloading_loadImages)
  define st2 where "st2 = st1\<lparr>preloaded := Promise_all ps\<rparr>"
  have st2: "preloader st0 = st2"
    using l by (simp add: preloader_def st2_def)
  have pm: "preloadMembers st2 = preloadMembers st1"
    by (simp add: st2_def preloadMembers_def)
  have fin: "finite (preloadMembers st1)"
    using pre by (simp add: preloading_def finite_preloadMembers)
  show ?thesis
  proof (cases "filter isPending ps = []")
    case True
    then have "card (preloadMembers st1) = 0"
      using pre by (simp add: preloading_def)
    then have "preloadMembers st1 = {}"
      using fin by simp
    then have fulfilled: "preloadDone st2"
      using pre True pm by (simp add: preloadDone_def preloading_def) (simp add: st2_def Promise_all_def)
    have "preloaded_settled st2 = setTheaterSize True FromConstructor st2"
      using fulfilled by (simp add: preloaded_settled_def preloadDone_def)
    then have "preloadDone (preloaded_settled st2)"
      using preloadDone_keeps [OF fulfilled keeps_setTheaterSize] by simp
    then have "preloadDone (microtasks (preloaded_settled st2))"
      using preloadDone_keeps [OF _ keeps_microtasks] by simp
    then show ?thesis
      by (simp add: constructor_def st0_def [symmetric] st2)
  next
    case False
    then have waiting: "all_status (preloaded st2) = AllWaiting"
      using pre by (simp add: st2_def Promise_all_def preloading_def)
    have "length (filter isPending ps) \<noteq> 0"
      using False by simp
    moreover have "length (filter isPending ps) = card (preloadMembers st1)"
      using pre by (simp add: preloading_def)
    ultimately have "card (preloadMembers st1) \<noteq> 0"
      by metis
    then have "preloadMembers st1 \<noteq> {}"
      by auto
    then have nr: "notReady st2"
      using pre waiting pm unfolding notReady_def preloading_def
      by (simp add: st2_def Promise_all_def)
    have "preloaded_settled st2 = st2"
      using waiting by (simp add: preloaded_settled_def)
    then show ?thesis
      using nr by (simp add: constructor_def st0_def [symmetric] st2 notReady_microtasks)
  qed
qed

text \<open>
  C4, as the code has it. Whatever the options, the host and the events: the
  controller fires \<^verbatim>\<open>onComplete\<close> only when the preloader's \<^verbatim>\<open>Promise.all\<close> is
  fulfilled, that is when every preload fetch has succeeded; and when a preload
  fetch that is in flight fails, the promise is rejected at that event, without
  waiting for the other fetches, and from then on, whatever happens, the
  controller adds no listener, sets no interval and never fires
  \<^verbatim>\<open>onComplete\<close>: it never enters the ready state.
\<close>

theorem C4_ready_needs_every_preload:
  "(OnComplete \<in> set (outputs (run es (constructor opts story bodyHeight w h y)))
      \<longrightarrow> all_status (preloaded (run es (constructor opts story bodyHeight w h y))) = AllFulfilled)
   \<and> (\<forall>img el es'.
        elements (run es (constructor opts story bodyHeight w h y)) img = Some el
        \<and> el_then el = ByPreloader
        \<longrightarrow> OnComplete \<notin> set (outputs (run (es @ ImgError img # es') (constructor opts story bodyHeight w h y)))
          \<and> \<not> listeners (run (es @ ImgError img # es') (constructor opts story bodyHeight w h y))
          \<and> \<not> intervalSet (run (es @ ImgError img # es') (constructor opts story bodyHeight w h y))
          \<and> (\<exists>x. all_status (preloaded (run (es @ ImgError img # es') (constructor opts story bodyHeight w h y)))
                = AllRejected x))"
proof -
  define st where "st = run es (constructor opts story bodyHeight w h y)"
  have inv: "notReady st \<or> preloadDone st"
    unfolding st_def by (rule ready_or_not_run) (rule ready_or_not_constructor)
  have first: "OnComplete \<in> set (outputs st) \<longrightarrow> all_status (preloaded st) = AllFulfilled"
    using inv by (auto simp: notReady_def preloadDone_def)
  have second: "OnComplete \<notin> set (outputs (run (ImgError img # es') st))
          \<and> \<not> listeners (run (ImgError img # es') st)
          \<and> \<not> intervalSet (run (ImgError img # es') st)
          \<and> (\<exists>x. all_status (preloaded (run (ImgError img # es') st)) = AllRejected x)"
    if el: "elements st img = Some el" and k: "el_then el = ByPreloader" for img el es'
  proof -
    have "img \<in> preloadMembers st"
      using el k by (auto simp: preloadMembers_def)
    then have nr: "notReady st"
      using inv by (auto simp: preloadDone_def)
    have "memberFired (st\<lparr>elements := (elements st)(img := None)\<rparr>)"
      by (rule memberFired_remove [OF nr el]) simp_all
    then have "preloadFailed (handle (ImgError img) st)"
      using preloaded_member_failed el k by (simp add: preloadFailed_def)
    then have "preloadFailed (step (ImgError img) st)"
      by (simp add: step_def preloadFailed_def notReady_microtasks)
    then have "preloadFailed (run es' (step (ImgError img) st))"
      by (rule preloadFailed_run)
    moreover have "run (ImgError img # es') st = run es' (step (ImgError img) st)"
      by (simp add: run_def)
    ultimately show ?thesis
      by (simp add: preloadFailed_def notReady_def)
  qed
  show ?thesis
    using first second by (simp add: run_append st_def [symmetric])
qed

text \<open>
  The theorem of C4 at the ten-image catalog. When the three preloaded images and
  the first frame load, \<^verbatim>\<open>onComplete\<close> is fired and the preload is fulfilled.
  When image 1 fails after image 0 has loaded, \<^verbatim>\<open>onComplete\<close> is not fired and
  no listener is added, whatever follows.
\<close>

theorem C4_ready_needs_every_preload_witness:
  "OnComplete \<in> set (outputs (run firstFrame started))
   \<and> all_status (preloaded (run firstFrame started)) = AllFulfilled
   \<and> OnComplete \<notin> set (outputs (run ([ImgLoad 0 400 300] @ ImgError 1 # [ImgLoad 2 400 300, Scroll 60]) started))
   \<and> \<not> listeners (run ([ImgLoad 0 400 300] @ ImgError 1 # [ImgLoad 2 400 300, Scroll 60]) started)"
proof -
  have ready: "OnComplete \<in> set (outputs (run firstFrame started))"
    unfolding firstFrame_def started_def demoOptions_def by code_simp
  have "map_option el_then (elements (run [ImgLoad 0 400 300] started) 1) = Some ByPreloader"
    unfolding started_def demoOptions_def by code_simp
  then obtain el where member: "elements (run [ImgLoad 0 400 300] started) 1 = Some el"
      "el_then el = ByPreloader"
    by auto
  show ?thesis
    using C4_ready_needs_every_preload [of firstFrame demoOptions True 600 800 400 0]
      C4_ready_needs_every_preload [of "[ImgLoad 0 400 300]" demoOptions True 600 800 400 0] ready member
    unfolding started_def [symmetric]
    by blast
qed

text \<open>
  C4 as stated fails. Of the three preload fetches the second fails and the other
  two succeed. The preload is rejected at the failure, while the third fetch is
  still in flight; after all three have finished, and after a scroll and a tick
  of the interval, the only output is the unhandled rejection: no
  \<^verbatim>\<open>onComplete\<close>, no listener, no interval, although images 0 and 2 are cached.
\<close>

theorem C4_partial_failure_counterexample:
  "map fst (transport started) = [0, 1, 2]
   \<and> all_status (preloaded (run [ImgLoad 0 400 300, ImgError 1] started)) = AllRejected (ErrorEvent 1)
   \<and> map_option el_index (elements (run [ImgLoad 0 400 300, ImgError 1] started) 2) = Some 2
   \<and> outputs (run [ImgLoad 0 400 300, ImgError 1, ImgLoad 2 400 300, Scroll 60, IntervalTick] started)
       = [Unhandled (ErrorEvent 1)]
   \<and> \<not> listeners (run [ImgLoad 0 400 300, ImgError 1, ImgLoad 2 400 300, Scroll 60, IntervalTick] started)
   \<and> \<not> intervalSet (run [ImgLoad 0 400 300, ImgError 1, ImgLoad 2 400 300, Scroll 60, IntervalTick] started)
   \<and> loadedImages (run [ImgLoad 0 400 300, ImgError 1, ImgLoad 2 400 300, Scroll 60, IntervalTick] started)
       = [(0, 0), (2, 2)]"
  unfolding started_def demoOptions_def by code_simp

section \<open>The forward-loading flag after a failed chain\<close>

text \<open>
  C5, evaluated. After the first frame nothing is loading forward. A scroll to
  frame 2 starts a chain for the images 3 and 4 and sets the flag. Image 3 loads
  and image 4 fails: the chain is rejected, none of its fetches is in flight, and
  the flag is still set. It stays set: a tick of the interval loads nothing, and
  a later scroll to frame 4 draws the frame but its \<^verbatim>\<open>forwardLoad\<close> ends at the
  \<^verbatim>\<open>await\<close> of the rejected chain, so the only further call of \<^verbatim>\<open>loadImage\<close>
  is the one for the frame itself. Had image 4 loaded, the flag would be cleared.
\<close>

theorem C5_flag_stays_set_after_failed_chain:
  "isFowardLoading ready = False
   \<and> isFowardLoading (run [Scroll 60] ready) = True
   \<and> map snd (transport (run [Scroll 60] ready))
       = map snd (transport ready) @ [''low/3.jpg'', ''low/4.jpg'']
   \<and> isFowardLoading (run [Scroll 60, ImgLoad 4 400 300, ImgError 5] ready) = True
   \<and> all_status (allPromises (run [Scroll 60, ImgLoad 4 400 300, ImgError 5] ready)
                    (forwardLoading (run [Scroll 60, ImgLoad 4 400 300, ImgError 5] ready)))
       = AllRejected (ErrorEvent 5)
   \<and> elements (run [Scroll 60, ImgLoad 4 400 300, ImgError 5] ready) 4 = None
   \<and> elements (run [Scroll 60, ImgLoad 4 400 300, ImgError 5] ready) 5 = None
   \<and> isFowardLoading (run [Scroll 60, ImgLoad 4 400 300, ImgError 5, IntervalTick, Scroll 120,
                             ImgLoad 6 400 300, IntervalTick] ready) = True
   \<and> loadImageCalls (run [Scroll 60, ImgLoad 4 400 300, ImgError 5, IntervalTick, Scroll 120,
                            ImgLoad 6 400 300, IntervalTick] ready)
       = loadImageCalls (run [Scroll 60, ImgLoad 4 400 300, ImgError 5] ready) @ [(4, False, False)]
   \<and> isFowardLoading (run [Scroll 60, ImgLoad 4 400 300, ImgLoad 5 400 300] ready) = False"
  unfolding ready_def firstFrame_def started_def demoOptions_def by code_simp

section \<open>The interval on an image that is already loaded\<close>

text \<open>
  C6, evaluated. After the first frame a scroll to frame 2 loads the images 3 and
  4 by forward loading; the interval's cursor is 2, the flag is cleared and the
  quota of a tick is 2. The next tick moves the cursor to 3, whose image is
  cached: \<^verbatim>\<open>loadImage\<close> rejects, the handler of line 151 throws, the loop ends
  with \<^verbatim>\<open>'Unable to load 3'\<close> unhandled, and the tick has started no transport
  fetch: it has not gone on to the images 5 and 6. The second tick ends the same
  way on image 4, and only the third starts a fetch, of image 5.
\<close>

theorem C6_already_loaded_aborts_the_fill:
  "loadedImages (run [Scroll 60, ImgLoad 4 400 300, ImgLoad 5 400 300] ready)
     = [(0, 0), (1, 1), (2, 2), (3, 4), (4, 5)]
   \<and> latestIntervalLoadedImage (run [Scroll 60, ImgLoad 4 400 300, ImgLoad 5 400 300] ready) = 2
   \<and> isFowardLoading (run [Scroll 60, ImgLoad 4 400 300, ImgLoad 5 400 300] ready) = False
   \<and> \<lfloor>real_of_int (numberOfImages ready) * intervalLoadPercentage (options ready)\<rfloor> = 2
   \<and> outputs (run [Scroll 60, ImgLoad 4 400 300, ImgLoad 5 400 300, IntervalTick] ready)
       = outputs (run [Scroll 60, ImgLoad 4 400 300, ImgLoad 5 400 300] ready)
         @ [Unhandled (UnableToLoad 3)]
   \<and> transport (run [Scroll 60, ImgLoad 4 400 300, ImgLoad 5 400 300, IntervalTick] ready)
       = transport (run [Scroll 60, ImgLoad 4 400 300, ImgLoad 5 400 300] ready)
   \<and> latestIntervalLoadedImage (run [Scroll 60, ImgLoad 4 400 300, ImgLoad 5 400 300, IntervalTick] ready) = 3
   \<and> loadImageCalls (run [Scroll 60, ImgLoad 4 400 300, ImgLoad 5 400 300, IntervalTick] ready)
       = loadImageCalls (run [Scroll 60, ImgLoad 4 400 300, ImgLoad 5 400 300] ready) @ [(3, False, True)]
   \<and> outputs (run [Scroll 60, ImgLoad 4 400 300, ImgLoad 5 400 300,
                     IntervalTick, IntervalTick, IntervalTick] ready)
       = outputs (run [Scroll 60, ImgLoad 4 400 300, ImgLoad 5 400 300] ready)
         @ [Unhandled (UnableToLoad 3), Unhandled (UnableToLoad 4)]
   \<and> map snd (transport (run [Scroll 60, ImgLoad 4 400 300, ImgLoad 5 400 300,
                                 IntervalTick, IntervalTick, IntervalTick] ready))
       = map snd (transport (run [Scroll 60, ImgLoad 4 400 300, ImgLoad 5 400 300] ready))
         @ [''low/5.jpg'']"
  unfolding ready_def firstFrame_def started_def demoOptions_def by code_simp

end
